theory Spec2Isabelle
  imports Main "HOL-Library.Sublist"
begin

section \<open>The message content pipeline of EmailViewer.js\<close>

text \<open>
  A shallow embedding of the logic of \<^verbatim>\<open>src/components/EmailViewer.js\<close>:
  the content decoder \<^verbatim>\<open>decodeContent\<close>, the part-tree walk
  \<^verbatim>\<open>extractEmailContent\<close>/\<^verbatim>\<open>findParts\<close>, the header map
  \<^verbatim>\<open>getEmailHeaders\<close>, the link locator \<^verbatim>\<open>extractVerifyUrl\<close> and the
  WebSocket handlers set up by \<^verbatim>\<open>connectWebSocket\<close>.

  JavaScript strings are modelled as \<^typ>\<open>string\<close>: sequences of code units below 256,
  which is the range of everything \<^verbatim>\<open>atob\<close> returns. A thrown exception is the
  left injection of a sum type.
\<close>

subsection \<open>Exceptions\<close>

datatype js_error =
  TypeError
| SyntaxError
| InvalidCharacterError
| InvalidStateError
| LibraryError

definition bind_err :: "js_error + 'a \<Rightarrow> ('a \<Rightarrow> js_error + 'b) \<Rightarrow> js_error + 'b" where
  "bind_err r f = (case r of Inl e \<Rightarrow> Inl e | Inr v \<Rightarrow> f v)"

subsection \<open>The platform: \<^verbatim>\<open>atob\<close> and the quoted-printable module\<close>

text \<open>
  \<^verbatim>\<open>decodeContent\<close> calls the global \<^verbatim>\<open>atob\<close> and the imported
  \<^verbatim>\<open>quotedPrintable.decode\<close>. Neither is code of this repository, so the
  functions below take them as a parameter; each may return or throw.
\<close>

record platform =
  atob :: "string \<Rightarrow> js_error + string"
  quotedPrintable_decode :: "string \<Rightarrow> js_error + string"

subsubsection \<open>A concrete \<^verbatim>\<open>atob\<close>: forgiving base64 decoding\<close>

text \<open>
  The browser's \<^verbatim>\<open>atob\<close>: strip ASCII whitespace; when the length is a multiple of
  four drop one or two trailing \<^verbatim>\<open>=\<close>; fail when the length is 1 modulo 4 or a
  character is outside the base64 alphabet; otherwise turn each group of sextets into
  bytes, a trailing group of two or three sextets giving one or two bytes.
\<close>

definition ascii_whitespace :: "char \<Rightarrow> bool" where
  "ascii_whitespace c = (c \<in> set [CHR 0x09, CHR 0x0A, CHR 0x0C, CHR 0x0D, CHR 0x20])"

definition is_upper :: "char \<Rightarrow> bool" where
  "is_upper c = (65 \<le> (of_char c :: nat) \<and> (of_char c :: nat) \<le> 90)"

definition is_lower :: "char \<Rightarrow> bool" where
  "is_lower c = (97 \<le> (of_char c :: nat) \<and> (of_char c :: nat) \<le> 122)"

definition is_digit :: "char \<Rightarrow> bool" where
  "is_digit c = (48 \<le> (of_char c :: nat) \<and> (of_char c :: nat) \<le> 57)"

definition base64_alphabet :: "char \<Rightarrow> bool" where
  "base64_alphabet c = (is_upper c \<or> is_lower c \<or> is_digit c \<or> c = CHR ''+'' \<or> c = CHR ''/'')"

definition sextet :: "char \<Rightarrow> nat" where
  "sextet c =
     (if is_upper c then of_char c - 65
      else if is_lower c then of_char c - 97 + 26
      else if is_digit c then of_char c - 48 + 52
      else if c = CHR ''+'' then 62
      else 63)"

fun sextets_to_bytes :: "nat list \<Rightarrow> nat list" where
  "sextets_to_bytes (a # b # c # d # rest) =
     (a * 4 + b div 16) # ((b mod 16) * 16 + c div 4) # ((c mod 4) * 64 + d)
       # sextets_to_bytes rest"
| "sextets_to_bytes [a, b, c] = [a * 4 + b div 16, (b mod 16) * 16 + c div 4]"
| "sextets_to_bytes [a, b] = [a * 4 + b div 16]"
| "sextets_to_bytes _ = []"

definition strip_padding :: "string \<Rightarrow> string" where
  "strip_padding d =
     (if length d mod 4 = 0 then
        (if 2 \<le> length d \<and> d ! (length d - 1) = CHR ''='' \<and> d ! (length d - 2) = CHR ''=''
           then take (length d - 2) d
         else if 1 \<le> length d \<and> d ! (length d - 1) = CHR ''=''
           then take (length d - 1) d
         else d)
      else d)"

definition atob_js :: "string \<Rightarrow> js_error + string" where
  "atob_js data =
     (let d = strip_padding (filter (\<lambda>c. \<not> ascii_whitespace c) data) in
      if length d mod 4 = 1 then Inl InvalidCharacterError
      else if \<not> list_all base64_alphabet d then Inl InvalidCharacterError
      else Inr (map char_of (sextets_to_bytes (map sextet d))))"

subsubsection \<open>A concrete quoted-printable decoder\<close>

text \<open>
  The \<^verbatim>\<open>decode\<close> of the \<^verbatim>\<open>quoted-printable\<close> package is three global
  replacements: a tab or space right before a line end or the end of input is removed;
  a soft line break (\<^verbatim>\<open>=\<close> followed by CRLF, CR, LF or the end of input) is removed;
  \<^verbatim>\<open>=XX\<close> with two hexadecimal digits becomes the character with that code.
\<close>

definition line_terminator :: "char \<Rightarrow> bool" where
  "line_terminator c = (c = CHR 0x0A \<or> c = CHR 0x0D)"

fun strip_trailing_blank :: "string \<Rightarrow> string" where
  "strip_trailing_blank [] = []"
| "strip_trailing_blank (c # cs) =
     (if (c = CHR 0x09 \<or> c = CHR 0x20) \<and> (case cs of [] \<Rightarrow> True | d # _ \<Rightarrow> line_terminator d)
      then strip_trailing_blank cs
      else c # strip_trailing_blank cs)"

fun strip_soft_breaks :: "string \<Rightarrow> string" where
  "strip_soft_breaks [] = []"
| "strip_soft_breaks (c # cs) =
     (if c = CHR ''='' then
        (case cs of
           [] \<Rightarrow> []
         | d # ds \<Rightarrow>
             if d = CHR 0x0D then
               (case ds of
                  [] \<Rightarrow> []
                | e # es \<Rightarrow> if e = CHR 0x0A then strip_soft_breaks es else strip_soft_breaks ds)
             else if d = CHR 0x0A then strip_soft_breaks ds
             else c # strip_soft_breaks cs)
      else c # strip_soft_breaks cs)"

definition is_hex :: "char \<Rightarrow> bool" where
  "is_hex c = (is_digit c
     \<or> (65 \<le> (of_char c :: nat) \<and> (of_char c :: nat) \<le> 70)
     \<or> (97 \<le> (of_char c :: nat) \<and> (of_char c :: nat) \<le> 102))"

definition hex_value :: "char \<Rightarrow> nat" where
  "hex_value c =
     (if is_digit c then of_char c - 48
      else if is_upper c then of_char c - 65 + 10
      else of_char c - 97 + 10)"

fun decode_escapes :: "string \<Rightarrow> string" where
  "decode_escapes (c # h # l # cs) =
     (if c = CHR ''='' \<and> is_hex h \<and> is_hex l
      then char_of (hex_value h * 16 + hex_value l) # decode_escapes cs
      else c # decode_escapes (h # l # cs))"
| "decode_escapes cs = cs"

definition qp_decode :: "string \<Rightarrow> js_error + string" where
  "qp_decode input = Inr (decode_escapes (strip_soft_breaks (strip_trailing_blank input)))"

definition browser :: platform where
  "browser = \<lparr> atob = atob_js, quotedPrintable_decode = qp_decode \<rparr>"

subsection \<open>Content decoder\<close>

text \<open>
  \<^verbatim>\<open>encoded.replace(/-/g, '+').replace(/_/g, '/')\<close>
\<close>

definition url_safe_to_base64 :: "string \<Rightarrow> string" where
  "url_safe_to_base64 encoded =
     map (\<lambda>c. if c = CHR ''_'' then CHR ''/'' else c)
       (map (\<lambda>c. if c = CHR ''-'' then CHR ''+'' else c) encoded)"

text \<open>
  The body of the \<^verbatim>\<open>try\<close> block of \<^verbatim>\<open>decodeContent\<close>.
\<close>

definition decodeContent_try :: "platform \<Rightarrow> string \<Rightarrow> js_error + string" where
  "decodeContent_try P encoded =
     bind_err (atob P (url_safe_to_base64 encoded)) (quotedPrintable_decode P)"

text \<open>
  \<^verbatim>\<open>decodeContent(encoded)\<close>: \<open>None\<close> is an absent (undefined or null) argument.
  The \<^verbatim>\<open>catch\<close> branch returns the argument itself.
\<close>

definition decodeContent :: "platform \<Rightarrow> string option \<Rightarrow> js_error + string" where
  "decodeContent P encoded =
     (case encoded of
        None \<Rightarrow> Inr []
      | Some s \<Rightarrow>
          if s = [] then Inr []
          else (case decodeContent_try P s of
                  Inr decoded \<Rightarrow> Inr decoded
                | Inl e \<Rightarrow> Inr s))"


subsection \<open>Messages, parts and headers\<close>

text \<open>
  The payload is the JSON the backend returns. A field that the code guards
  (\<^verbatim>\<open>part.body?.data\<close>, \<^verbatim>\<open>part.parts &&\<close>, \<^verbatim>\<open>payload?.headers\<close>,
  \<^verbatim>\<open>if (!part) return\<close>) is optional here, \<open>None\<close> standing for an absent
  (undefined or null) value. The name of a header is a string or absent; its value is a
  string, null, or undefined when the entry has none.
\<close>

datatype hval = HUndefined | HNull | HStr string

record header =
  name :: "string option"
  hvalue :: hval

datatype body = Body (data: "string option")

datatype part =
  Part (mimeType: "string option") (body: "body option")
       (parts: "part option list option") (headers: "header list option")

record content =
  textContent :: string
  htmlContent :: string

text \<open>\<^verbatim>\<open>part.body?.data\<close>\<close>

definition body_data :: "part \<Rightarrow> string option" where
  "body_data p = (case body p of None \<Rightarrow> None | Some b \<Rightarrow> data b)"

text \<open>Truthiness of a string-or-absent value: absent and the empty string are falsy.\<close>

definition truthy :: "string option \<Rightarrow> bool" where
  "truthy v = (case v of None \<Rightarrow> False | Some s \<Rightarrow> s \<noteq> [])"

subsection \<open>Part-tree walk\<close>

text \<open>
  \<^verbatim>\<open>findParts\<close> assigns the closure variables \<^verbatim>\<open>text\<close> and \<^verbatim>\<open>html\<close>,
  which \<^verbatim>\<open>extractEmailContent\<close> returns as \<^verbatim>\<open>textContent\<close> and
  \<^verbatim>\<open>htmlContent\<close>; here they are the two fields of the record that is passed along.
  \<^verbatim>\<open>part.parts.forEach(findParts)\<close> is \<open>findParts_forEach\<close>.
\<close>

fun findParts :: "platform \<Rightarrow> part option \<Rightarrow> content \<Rightarrow> js_error + content"
  and findParts_forEach :: "platform \<Rightarrow> part option list \<Rightarrow> content \<Rightarrow> js_error + content"
where
  "findParts P None acc = Inr acc"
| "findParts P (Some (Part mt b ps hs)) acc =
     (if mt = Some ''text/plain'' \<and> truthy (body_data (Part mt b ps hs)) then
        (case decodeContent P (body_data (Part mt b ps hs)) of
           Inl e \<Rightarrow> Inl e
         | Inr decoded \<Rightarrow> Inr (acc\<lparr>textContent := decoded\<rparr>))
      else if mt = Some ''text/html'' \<and> truthy (body_data (Part mt b ps hs)) then
        (case decodeContent P (body_data (Part mt b ps hs)) of
           Inl e \<Rightarrow> Inl e
         | Inr decoded \<Rightarrow> Inr (acc\<lparr>htmlContent := decoded\<rparr>))
      else
        (case ps of
           None \<Rightarrow> Inr acc
         | Some children \<Rightarrow>
             if length children > 0 then findParts_forEach P children acc else Inr acc))"
| "findParts_forEach P [] acc = Inr acc"
| "findParts_forEach P (child # rest) acc =
     (case findParts P child acc of
        Inl e \<Rightarrow> Inl e
      | Inr acc' \<Rightarrow> findParts_forEach P rest acc')"

definition extractEmailContent :: "platform \<Rightarrow> part option \<Rightarrow> js_error + content" where
  "extractEmailContent P payload =
     (case payload of
        None \<Rightarrow> Inr \<lparr> textContent = [], htmlContent = [] \<rparr>
      | Some p \<Rightarrow> findParts P (Some p) \<lparr> textContent = [], htmlContent = [] \<rparr>)"

subsection \<open>Header map\<close>

text \<open>
  \<^verbatim>\<open>String.prototype.toLowerCase\<close> on code units below 256: the ASCII capitals and
  the Latin-1 capitals (0xC0 to 0xDE without the multiplication sign 0xD7) move up by 32.
\<close>

definition toLowerCase_char :: "char \<Rightarrow> char" where
  "toLowerCase_char c =
     (let n = (of_char c :: nat) in
      if (65 \<le> n \<and> n \<le> 90) \<or> (192 \<le> n \<and> n \<le> 222 \<and> n \<noteq> 215) then char_of (n + 32) else c)"

definition toLowerCase :: "string \<Rightarrow> string" where
  "toLowerCase s = map toLowerCase_char s"

text \<open>
  The object \<^verbatim>\<open>headers\<close> while it is filled: its own properties, and whether its
  prototype has been reset to null. \<^verbatim>\<open>headers[key] = value\<close> defines an own
  property, except that the key \<^verbatim>\<open>__proto__\<close> reaches the setter inherited from
  \<^verbatim>\<open>Object.prototype\<close> as long as that is the prototype: the setter resets the
  prototype for the value null and ignores a string and undefined.
\<close>

record headers_object =
  own :: "string \<rightharpoonup> hval"
  null_prototype :: bool

definition assign :: "headers_object \<Rightarrow> string \<Rightarrow> hval \<Rightarrow> headers_object" where
  "assign obj key v =
     (if key = ''__proto__'' \<and> \<not> null_prototype obj then
        (case v of HNull \<Rightarrow> obj\<lparr>null_prototype := True\<rparr> | _ \<Rightarrow> obj)
      else obj\<lparr>own := (own obj)(key \<mapsto> v)\<rparr>)"

text \<open>
  The callback destructures \<^verbatim>\<open>{ name, value }\<close> and calls
  \<^verbatim>\<open>name.toLowerCase()\<close>, a TypeError when \<^verbatim>\<open>name\<close> is absent.
\<close>

fun headers_forEach :: "header list \<Rightarrow> headers_object \<Rightarrow> js_error + headers_object" where
  "headers_forEach [] hdrs = Inr hdrs"
| "headers_forEach (h # rest) hdrs =
     (case name h of
        None \<Rightarrow> Inl TypeError
      | Some n \<Rightarrow> headers_forEach rest (assign hdrs (toLowerCase n) (hvalue h)))"

text \<open>
  \<^verbatim>\<open>getEmailHeaders\<close>; the result is given by the own properties of the object
  returned, which is all that a read of \<^verbatim>\<open>from\<close>, \<^verbatim>\<open>to\<close>,
  \<^verbatim>\<open>subject\<close> or \<^verbatim>\<open>date\<close> sees.
\<close>

definition getEmailHeaders :: "part option \<Rightarrow> js_error + (string \<rightharpoonup> hval)" where
  "getEmailHeaders payload =
     (case payload of
        None \<Rightarrow> Inr Map.empty
      | Some p \<Rightarrow>
          (case headers p of
             None \<Rightarrow> Inr Map.empty
           | Some hs \<Rightarrow>
               (case headers_forEach hs \<lparr> own = Map.empty, null_prototype = False \<rparr> of
                  Inl e \<Rightarrow> Inl e
                | Inr hdrs \<Rightarrow> Inr (own hdrs))))"

subsection \<open>Regular expressions with the flag \<^verbatim>\<open>i\<close>\<close>

text \<open>
  A backtracking matcher in the style of the ECMAScript semantics: \<open>rem r s\<close> lists, in
  the order in which backtracking tries them, the rests of \<open>s\<close> after each way of
  matching \<open>r\<close> at the start of \<open>s\<close>. Quantifiers are greedy, and an iteration of a star
  that consumes nothing is rejected. Characters are compared after \<open>canonicalize\<close>
  (upper-casing); it is written for ASCII here, which decides every comparison with the
  ASCII characters of a pattern.
\<close>

datatype class_item = WhiteSpace | Ch char

datatype regex =
  Lit string
| NegClass "class_item list"
| Seq regex regex
| Alt regex regex
| Opt regex
| Star regex

definition canonicalize :: "char \<Rightarrow> char" where
  "canonicalize c = (if is_lower c then char_of ((of_char c :: nat) - 32) else c)"

text \<open>\<^verbatim>\<open>\s\<close> on code units below 256.\<close>

definition white_space :: "char \<Rightarrow> bool" where
  "white_space c = (c \<in> set [CHR 0x09, CHR 0x0A, CHR 0x0B, CHR 0x0C, CHR 0x0D, CHR 0x20, CHR 0xA0])"

fun item_matches :: "char \<Rightarrow> class_item \<Rightarrow> bool" where
  "item_matches c WhiteSpace = white_space c"
| "item_matches c (Ch d) = (canonicalize c = canonicalize d)"

fun lit_rest :: "string \<Rightarrow> string \<Rightarrow> string option" where
  "lit_rest [] s = Some s"
| "lit_rest (p # ps) [] = None"
| "lit_rest (p # ps) (c # cs) = (if canonicalize c = canonicalize p then lit_rest ps cs else None)"

fun rem :: "regex \<Rightarrow> string \<Rightarrow> string list" where
  "rem (Lit p) s = (case lit_rest p s of None \<Rightarrow> [] | Some t \<Rightarrow> [t])"
| "rem (NegClass items) s =
     (case s of
        [] \<Rightarrow> []
      | c # cs \<Rightarrow> if list_ex (item_matches c) items then [] else [cs])"
| "rem (Seq a b) s = concat (map (rem b) (rem a s))"
| "rem (Alt a b) s = rem a s @ rem b s"
| "rem (Opt a) s = rem a s @ [s]"
| "rem (Star a) s =
     concat (map (\<lambda>t. if length t < length s then rem (Star a) t else []) (rem a s)) @ [s]"

text \<open>\<^verbatim>\<open>a+\<close> is \<^verbatim>\<open>aa*\<close>.\<close>

definition Plus :: "regex \<Rightarrow> regex" where
  "Plus a = Seq a (Star a)"

text \<open>One attempt at the start of \<open>s\<close>: the text matched by the first success.\<close>

definition match_at :: "regex \<Rightarrow> string \<Rightarrow> string option" where
  "match_at r s = (case rem r s of [] \<Rightarrow> None | t # _ \<Rightarrow> Some (take (length s - length t) s))"

text \<open>
  The matches of a global search, left to right: \<open>scan r k s\<close> skips \<open>k\<close> characters
  (the rest of the previous match), then attempts a match at each position in turn;
  after an empty match the search moves on by one character.
\<close>

fun scan :: "regex \<Rightarrow> nat \<Rightarrow> string \<Rightarrow> string list" where
  "scan r k [] = (if k = 0 then (case match_at r [] of None \<Rightarrow> [] | Some m \<Rightarrow> [m]) else [])"
| "scan r (Suc k) (c # cs) = scan r k cs"
| "scan r 0 (c # cs) =
     (case match_at r (c # cs) of
        None \<Rightarrow> scan r 0 cs
      | Some m \<Rightarrow> m # scan r (length m - 1) cs)"

text \<open>\<^verbatim>\<open>str.match(re)\<close> for a global \<open>re\<close>: all matches, or null when there is none.\<close>

definition string_match :: "string \<Rightarrow> regex \<Rightarrow> string list option" where
  "string_match s r = (case scan r 0 s of [] \<Rightarrow> None | m # ms \<Rightarrow> Some (m # ms))"

subsection \<open>Verification link locator\<close>

text \<open>\<^verbatim>\<open>/https?:\/\/[^\s<>"]+(verify|confirm|activate)[^\s<>"]*/gi\<close>\<close>

definition urlRegex :: regex where
  "urlRegex =
     Seq (Lit ''http'')
       (Seq (Opt (Lit ''s''))
         (Seq (Lit ''://'')
           (Seq (Plus (NegClass [WhiteSpace, Ch CHR ''<'', Ch CHR ''>'', Ch CHR 0x22]))
             (Seq (Alt (Lit ''verify'') (Alt (Lit ''confirm'') (Lit ''activate'')))
               (Star (NegClass [WhiteSpace, Ch CHR ''<'', Ch CHR ''>'', Ch CHR 0x22]))))))"

text \<open>
  A JSON value, for the fields the pipeline treats as opaque and for the events of the
  push channel; \<open>JUndefined\<close> is what reading a missing property gives. Numbers are
  the integers that a double holds exactly, those of magnitude below \<open>2\<^sup>5\<^sup>3\<close>.
\<close>

typedef safe_integer = "{n :: int. - (2 ^ 53) < n \<and> n < 2 ^ 53}"
  morphisms int_of safe_integer
  by (rule exI [of _ 0]) simp

datatype jsval =
  JUndefined
| JNull
| JBool bool
| JNum safe_integer
| JStr string
| JArr "jsval list"
| JObj "(string \<times> jsval) list"

text \<open>
  The message the backend returns: \<^verbatim>\<open>{ id, snippet, payload, verificationStatus }\<close>.
\<close>

record message =
  msg_id :: jsval
  snippet :: jsval
  payload :: "part option"
  msg_verificationStatus :: jsval

text \<open>\<^verbatim>\<open>a || b\<close> on strings.\<close>

definition or_else :: "string \<Rightarrow> string \<Rightarrow> string" where
  "or_else a b = (if a \<noteq> [] then a else b)"

definition extractVerifyUrl :: "platform \<Rightarrow> message option \<Rightarrow> js_error + string option" where
  "extractVerifyUrl P email =
     (case email of
        None \<Rightarrow> Inr None
      | Some e \<Rightarrow>
          (case extractEmailContent P (payload e) of
             Inl err \<Rightarrow> Inl err
           | Inr c \<Rightarrow>
               (let textToSearch = or_else (or_else (textContent c) (htmlContent c)) [];
                    matches = string_match textToSearch urlRegex
                in Inr (case matches of None \<Rightarrow> None | Some ms \<Rightarrow> Some (hd ms)))))"

subsection \<open>Status sync channel\<close>

text \<open>
  Reading a property \<^verbatim>\<open>v.k\<close> of a JSON value, for the names the handlers read
  (\<^verbatim>\<open>type\<close>, \<^verbatim>\<open>messageId\<close>, \<^verbatim>\<open>status\<close>): a TypeError on undefined and null,
  the own property of an object, undefined otherwise.
\<close>

definition getp :: "jsval \<Rightarrow> string \<Rightarrow> js_error + jsval" where
  "getp v k =
     (case v of
        JUndefined \<Rightarrow> Inl TypeError
      | JNull \<Rightarrow> Inl TypeError
      | JObj kvs \<Rightarrow> Inr (case map_of kvs k of None \<Rightarrow> JUndefined | Some x \<Rightarrow> x)
      | _ \<Rightarrow> Inr JUndefined)"

text \<open>
  The conversion of a value to a computed property key \<^verbatim>\<open>[v]\<close>. It throws a
  TypeError for an object with an own property \<^verbatim>\<open>toString\<close> (a JSON value is
  not callable, and the inherited \<^verbatim>\<open>valueOf\<close> returns the object), and for an
  array with such an element, which \<^verbatim>\<open>join\<close> converts. Otherwise the key is
  \<open>toPropertyKey v\<close>; the numbers of the model are printed in decimal.
\<close>

fun toPropertyKey_throws :: "jsval \<Rightarrow> bool" where
  "toPropertyKey_throws (JObj kvs) = (map_of kvs ''toString'' \<noteq> None)"
| "toPropertyKey_throws (JArr xs) = list_ex toPropertyKey_throws xs"
| "toPropertyKey_throws v = False"

fun digits :: "nat \<Rightarrow> string" where
  "digits n = (if n < 10 then [char_of (48 + n)] else digits (n div 10) @ [char_of (48 + n mod 10)])"

definition join :: "string list \<Rightarrow> string" where
  "join xs = (case xs of [] \<Rightarrow> [] | y # ys \<Rightarrow> y @ concat (map (\<lambda>z. '','' @ z) ys))"

fun toPropertyKey :: "jsval \<Rightarrow> string" where
  "toPropertyKey JUndefined = ''undefined''"
| "toPropertyKey JNull = ''null''"
| "toPropertyKey (JBool b) = (if b then ''true'' else ''false'')"
| "toPropertyKey (JNum n) =
     (if int_of n < 0 then ''-'' @ digits (nat (- int_of n)) else digits (nat (int_of n)))"
| "toPropertyKey (JStr s) = s"
| "toPropertyKey (JArr xs) =
     join (map (\<lambda>x. if x = JUndefined \<or> x = JNull then [] else toPropertyKey x) xs)"
| "toPropertyKey (JObj kvs) = ''[object Object]''"

text \<open>
  The updater \<^verbatim>\<open>prev => ({...prev, [data.messageId]: data.status})\<close>: the spread
  copies \<^verbatim>\<open>prev\<close>, then the key is computed, then the value is read.
\<close>

definition updater :: "jsval \<Rightarrow> (string \<rightharpoonup> jsval) \<Rightarrow> js_error + (string \<rightharpoonup> jsval)" where
  "updater d prev =
     (case getp d ''messageId'' of
        Inl e \<Rightarrow> Inl e
      | Inr m \<Rightarrow>
          if toPropertyKey_throws m then Inl TypeError
          else (case getp d ''status'' of
                  Inl e \<Rightarrow> Inl e
                | Inr st \<Rightarrow> Inr (prev(toPropertyKey m \<mapsto> st))))"

text \<open>
  \<^verbatim>\<open>ws.current.onmessage\<close>. The parser \<^verbatim>\<open>JSON.parse\<close> is a parameter. The
  handler itself either throws, or returns without a state update (\<open>None\<close>), or
  passes the updater for the parsed data to \<^verbatim>\<open>setVerificationStatus\<close>.
\<close>

definition onmessage_queued :: "(string \<Rightarrow> js_error + jsval) \<Rightarrow> string \<Rightarrow> js_error + jsval option" where
  "onmessage_queued JSON_parse event_data =
     (case JSON_parse event_data of
        Inl e \<Rightarrow> Inl e
      | Inr d \<Rightarrow>
          (case getp d ''type'' of
             Inl e \<Rightarrow> Inl e
           | Inr t \<Rightarrow> if t = JStr ''verification_update'' then Inr (Some d) else Inr None))"

text \<open>
  The handler together with its updater, as a function of the previous status mapping.
\<close>

definition onmessage ::
  "(string \<Rightarrow> js_error + jsval) \<Rightarrow> (string \<rightharpoonup> jsval) \<Rightarrow> string \<Rightarrow> js_error + (string \<rightharpoonup> jsval)" where
  "onmessage JSON_parse prev event_data =
     (case onmessage_queued JSON_parse event_data of
        Inl e \<Rightarrow> Inl e
      | Inr None \<Rightarrow> Inr prev
      | Inr (Some d) \<Rightarrow> updater d prev)"

text \<open>
  The sockets the component has created, in creation order, each with the
  \<^verbatim>\<open>email\<close> its handlers close over and the messages sent on it; \<open>ws_current\<close> is
  \<^verbatim>\<open>ws.current\<close>. The trace records the calls made on sockets, in order.
\<close>

datatype readyState = CONNECTING | OPEN | CLOSING | CLOSED

record websocket =
  readyState :: readyState
  email :: string
  sent :: "jsval list"

datatype effect = WsNew nat | WsClose nat | WsSend nat jsval

record state =
  verificationStatus :: "string \<rightharpoonup> jsval"
  emailData :: "message option"
  loading :: bool
  error :: string
  sockets :: "websocket list"
  ws_current :: "nat option"
  trace :: "effect list"

definition live :: "websocket \<Rightarrow> bool" where
  "live w = (readyState w = CONNECTING \<or> readyState w = OPEN)"

text \<open>\<^verbatim>\<open>socket.close()\<close>: a connecting or open socket starts closing; otherwise nothing.\<close>

definition ws_close :: "nat \<Rightarrow> state \<Rightarrow> state" where
  "ws_close i st =
     (let st' = st\<lparr>trace := trace st @ [WsClose i]\<rparr> in
      if i < length (sockets st) \<and> live (sockets st ! i)
      then st'\<lparr>sockets := (sockets st)[i := (sockets st ! i)\<lparr>readyState := CLOSING\<rparr>]\<rparr>
      else st')"

text \<open>
  \<^verbatim>\<open>socket.send(msg)\<close>: an InvalidStateError while connecting; queued when open;
  dropped when closing or closed.
\<close>

definition ws_send :: "nat \<Rightarrow> jsval \<Rightarrow> state \<Rightarrow> js_error + state" where
  "ws_send i msg st =
     (if i < length (sockets st) then
        (case readyState (sockets st ! i) of
           CONNECTING \<Rightarrow> Inl InvalidStateError
         | OPEN \<Rightarrow>
             Inr (st\<lparr>sockets := (sockets st)[i := (sockets st ! i)\<lparr>sent := sent (sockets st ! i) @ [msg]\<rparr>],
                     trace := trace st @ [WsSend i msg]\<rparr>)
         | _ \<Rightarrow> Inr (st\<lparr>trace := trace st @ [WsSend i msg]\<rparr>))
      else Inl TypeError)"

definition connectWebSocket :: "string \<Rightarrow> state \<Rightarrow> state" where
  "connectWebSocket em st =
     (let st1 = (case ws_current st of None \<Rightarrow> st | Some i \<Rightarrow> ws_close i st);
          n = length (sockets st1)
      in st1\<lparr>sockets := sockets st1 @ [\<lparr> readyState = CONNECTING, email = em, sent = [] \<rparr>],
             ws_current := Some n,
             trace := trace st1 @ [WsNew n]\<rparr>)"

text \<open>
  \<^verbatim>\<open>ws.current.onopen\<close> of socket \<open>i\<close>: sends, on whatever \<^verbatim>\<open>ws.current\<close> is
  then, the subscription for the address the handler closed over.
\<close>

definition onopen :: "nat \<Rightarrow> state \<Rightarrow> js_error + state" where
  "onopen i st =
     (case ws_current st of
        None \<Rightarrow> Inl TypeError
      | Some j \<Rightarrow>
          ws_send j (JObj [(''type'', JStr ''subscribe''), (''email'', JStr (email (sockets st ! i)))]) st)"

text \<open>
  The cleanup of the mount effect, run when the component is unmounted:
  \<^verbatim>\<open>if (ws.current) ws.current.close()\<close>. The fields of the component are left
  as they were at that moment.
\<close>

definition unmount :: "state \<Rightarrow> state" where
  "unmount st = (case ws_current st of None \<Rightarrow> st | Some i \<Rightarrow> ws_close i st)"

text \<open>
  The success path of \<^verbatim>\<open>fetchEmailDetails\<close> (selecting a message), given
  \<^verbatim>\<open>response.data\<close>: the state after the three state updates, or the exception
  that the updater of the status mapping throws.
\<close>

definition fetchEmailDetails_resolved :: "message option \<Rightarrow> state \<Rightarrow> js_error + state" where
  "fetchEmailDetails_resolved response_data st =
     (case response_data of
        None \<Rightarrow> Inl TypeError
      | Some d \<Rightarrow>
          if toPropertyKey_throws (msg_id d) then Inl TypeError
          else
            Inr (st\<lparr>emailData := Some d,
                    verificationStatus := (verificationStatus st)(toPropertyKey (msg_id d) \<mapsto> msg_verificationStatus d),
                    loading := False\<rparr>))"

text \<open>
  What happens to the component: a call of \<^verbatim>\<open>connectWebSocket\<close>, the events of
  socket \<open>i\<close> (dispatched only in the ready state that allows them), and a resolved
  detail request. An exception thrown by a socket handler itself is reported and leaves
  the state as it was. An exception thrown by an updater of the status mapping is
  rethrown by React while it renders: the component is unmounted.
\<close>

datatype event =
  Subscribe string
| Opened nat
| Received nat string
| Failed nat
| Closed nat
| Selected "message option"

text \<open>The events that do not depend on the component being mounted.\<close>

definition socket_step :: "state \<Rightarrow> event \<Rightarrow> state" where
  "socket_step st ev =
     (case ev of
        Subscribe em \<Rightarrow> connectWebSocket em st
      | Opened i \<Rightarrow>
          if i < length (sockets st) \<and> readyState (sockets st ! i) = CONNECTING then
            (let st1 = st\<lparr>sockets := (sockets st)[i := (sockets st ! i)\<lparr>readyState := OPEN\<rparr>]\<rparr>
             in case onopen i st1 of Inl e \<Rightarrow> st1 | Inr st2 \<Rightarrow> st2)
          else st
      | Closed i \<Rightarrow>
          if i < length (sockets st) \<and> readyState (sockets st ! i) \<noteq> CLOSED
          then st\<lparr>sockets := (sockets st)[i := (sockets st ! i)\<lparr>readyState := CLOSED\<rparr>]\<rparr>
          else st
      | _ \<Rightarrow> st)"

text \<open>One event on the mounted component.\<close>

definition step :: "(string \<Rightarrow> js_error + jsval) \<Rightarrow> state \<Rightarrow> event \<Rightarrow> state" where
  "step JSON_parse st ev =
     (case ev of
        Received i d \<Rightarrow>
          if i < length (sockets st) \<and> readyState (sockets st ! i) = OPEN then
            (case onmessage_queued JSON_parse d of
               Inl e \<Rightarrow> st
             | Inr None \<Rightarrow> st
             | Inr (Some ev_data) \<Rightarrow>
                 (case updater ev_data (verificationStatus st) of
                    Inl e \<Rightarrow> unmount st
                  | Inr vs \<Rightarrow> st\<lparr>verificationStatus := vs\<rparr>))
          else st
      | Selected r \<Rightarrow>
          (case fetchEmailDetails_resolved r st of Inl e \<Rightarrow> unmount st | Inr st' \<Rightarrow> st')
      | _ \<Rightarrow> socket_step st ev)"

text \<open>Whether the event unmounts the component.\<close>

definition unmounts :: "(string \<Rightarrow> js_error + jsval) \<Rightarrow> state \<Rightarrow> event \<Rightarrow> bool" where
  "unmounts JSON_parse st ev =
     (case ev of
        Received i d \<Rightarrow>
          i < length (sockets st) \<and> readyState (sockets st ! i) = OPEN
          \<and> (case onmessage_queued JSON_parse d of
                Inr (Some ev_data) \<Rightarrow> isl (updater ev_data (verificationStatus st))
              | _ \<Rightarrow> False)
      | Selected r \<Rightarrow> isl (fetchEmailDetails_resolved r st)
      | _ \<Rightarrow> False)"

text \<open>
  A sequence of events. Once the component is unmounted its state updates do nothing:
  a received message and a resolved request leave the state as it is, while the sockets
  go on as before.
\<close>

fun run_from :: "(string \<Rightarrow> js_error + jsval) \<Rightarrow> bool \<Rightarrow> state \<Rightarrow> event list \<Rightarrow> state" where
  "run_from JSON_parse mounted st [] = st"
| "run_from JSON_parse mounted st (ev # evs) =
     (if mounted
      then run_from JSON_parse (\<not> unmounts JSON_parse st ev) (step JSON_parse st ev) evs
      else run_from JSON_parse False (socket_step st ev) evs)"

definition run :: "(string \<Rightarrow> js_error + jsval) \<Rightarrow> state \<Rightarrow> event list \<Rightarrow> state" where
  "run JSON_parse st evs = run_from JSON_parse True st evs"

text \<open>The state of a freshly mounted component.\<close>

definition init :: state where
  "init = \<lparr> verificationStatus = Map.empty, emailData = None, loading = False, error = [],
            sockets = [], ws_current = None, trace = [] \<rparr>"

subsection \<open>Notions used to state the properties\<close>

text \<open>
  An event tagged as a verification-status update that carries the message id \<open>m\<close>
  and the status \<open>s\<close>.
\<close>

definition is_update :: "jsval \<Rightarrow> string \<Rightarrow> jsval \<Rightarrow> bool" where
  "is_update ev m s =
     (getp ev ''type'' = Inr (JStr ''verification_update'')
      \<and> getp ev ''messageId'' = Inr (JStr m)
      \<and> getp ev ''status'' = Inr s)"

text \<open>Upserting a list of (message id, status) pairs, in order.\<close>

definition upserts :: "(string \<rightharpoonup> jsval) \<Rightarrow> (string \<times> jsval) list \<Rightarrow> (string \<rightharpoonup> jsval)" where
  "upserts vs ms = foldl (\<lambda>m (k, v). m(k \<mapsto> v)) vs ms"

text \<open>The indices of the sockets that are connecting or open.\<close>

definition live_sockets :: "state \<Rightarrow> nat list" where
  "live_sockets st = filter (\<lambda>i. live (sockets st ! i)) [0..<length (sockets st)]"

text \<open>Every connecting or open socket is the one \<^verbatim>\<open>ws.current\<close> refers to.\<close>

definition owned :: "state \<Rightarrow> bool" where
  "owned st = list_all (\<lambda>i. ws_current st = Some i) (live_sockets st)"

text \<open>
  A part that supplies plain text, or HTML: its type is exactly the one looked for and
  it has non-empty body data.
\<close>

definition is_plain :: "part \<Rightarrow> bool" where
  "is_plain p = (mimeType p = Some ''text/plain'' \<and> truthy (body_data p))"

definition is_html :: "part \<Rightarrow> bool" where
  "is_html p = (mimeType p = Some ''text/html'' \<and> truthy (body_data p))"

text \<open>
  The parts in depth-first order, children in order, without the descendants of a part
  that supplies content itself.
\<close>

fun visited :: "part option \<Rightarrow> part list"
  and visited_list :: "part option list \<Rightarrow> part list"
where
  "visited None = []"
| "visited (Some (Part mt b ps hs)) =
     Part mt b ps hs #
       (if is_plain (Part mt b ps hs) \<or> is_html (Part mt b ps hs) then []
        else (case ps of None \<Rightarrow> [] | Some children \<Rightarrow> visited_list children))"
| "visited_list [] = []"
| "visited_list (child # rest) = visited child @ visited_list rest"

text \<open>All parts in depth-first order, children in order.\<close>

fun dfs :: "part option \<Rightarrow> part list"
  and dfs_list :: "part option list \<Rightarrow> part list"
where
  "dfs None = []"
| "dfs (Some (Part mt b ps hs)) =
     Part mt b ps hs # (case ps of None \<Rightarrow> [] | Some children \<Rightarrow> dfs_list children)"
| "dfs_list [] = []"
| "dfs_list (child # rest) = dfs child @ dfs_list rest"

text \<open>A leaf: a part without children.\<close>

definition leaf :: "part \<Rightarrow> bool" where
  "leaf p = (case parts p of None \<Rightarrow> True | Some children \<Rightarrow> children = [])"

text \<open>The decoded body data of a part.\<close>

definition decoded :: "platform \<Rightarrow> part \<Rightarrow> string" where
  "decoded P p = (case decodeContent P (body_data p) of Inl e \<Rightarrow> [] | Inr s \<Rightarrow> s)"

text \<open>The decoded data of the last part of a list, or a default for the empty list.\<close>

definition last_decoded :: "platform \<Rightarrow> string \<Rightarrow> part list \<Rightarrow> string" where
  "last_decoded P d ps = (if ps = [] then d else decoded P (last ps))"

text \<open>A letter or a digit.\<close>

definition alnum :: "char \<Rightarrow> bool" where
  "alnum c = (is_upper c \<or> is_lower c \<or> is_digit c)"

text \<open>The characters of the class \<^verbatim>\<open>[^\s<>"]\<close>.\<close>

definition url_char :: "char \<Rightarrow> bool" where
  "url_char c = (\<not> white_space c \<and> c \<noteq> CHR ''<'' \<and> c \<noteq> CHR ''>'' \<and> c \<noteq> CHR 0x22)"

text \<open>\<open>m\<close> is \<open>p\<close> up to the case of letters.\<close>

definition ci_eq :: "string \<Rightarrow> string \<Rightarrow> bool" where
  "ci_eq p m = (map canonicalize m = map canonicalize p)"

definition keyword :: "string \<Rightarrow> bool" where
  "keyword k = (ci_eq ''verify'' k \<or> ci_eq ''confirm'' k \<or> ci_eq ''activate'' k)"

text \<open>The scheme with its separator: \<^verbatim>\<open>http://\<close> or \<^verbatim>\<open>https://\<close>, in any case.\<close>

definition scheme_sep :: "string \<Rightarrow> bool" where
  "scheme_sep h = (ci_eq ''http://'' h \<or> ci_eq ''https://'' h)"

text \<open>
  The text searched, in the words of the specification: the plain text when it is
  non-empty, else the HTML, else the empty string.
\<close>

definition search_text :: "content \<Rightarrow> string" where
  "search_text c =
     (if textContent c \<noteq> [] then textContent c
      else if htmlContent c \<noteq> [] then htmlContent c
      else [])"

text \<open>The parts of \<open>urlRegex\<close>.\<close>

abbreviation url_class :: regex where
  "url_class \<equiv> NegClass [WhiteSpace, Ch CHR ''<'', Ch CHR ''>'', Ch CHR 0x22]"

abbreviation kw_regex :: regex where
  "kw_regex \<equiv> Alt (Lit ''verify'') (Alt (Lit ''confirm'') (Lit ''activate''))"

abbreviation tail_regex :: regex where
  "tail_regex \<equiv> Seq kw_regex (Star url_class)"

abbreviation body_regex :: regex where
  "body_regex \<equiv> Seq (Plus url_class) tail_regex"

text \<open>A keyword, in any case, starts the string.\<close>

definition keyword_prefix :: "string \<Rightarrow> bool" where
  "keyword_prefix t = (\<exists>k r. t = k @ r \<and> keyword k)"

section \<open>Properties\<close>

subsection \<open>Content decoder\<close>

lemma decodeContent_try_Inl_iff:
  "decodeContent_try P s = Inl e \<longleftrightarrow>
     atob P (url_safe_to_base64 s) = Inl e
     \<or> (\<exists>b. atob P (url_safe_to_base64 s) = Inr b \<and> quotedPrintable_decode P b = Inl e)"
  by (cases "atob P (url_safe_to_base64 s)") (simp_all add: decodeContent_try_def bind_err_def)

lemma decodeContent_returns: "\<exists>s. decodeContent P encoded = Inr s"
  by (simp add: decodeContent_def split: option.split sum.split)

lemma decodeContent_fallback:
  "decodeContent_try P s = Inl e \<Longrightarrow> decodeContent P (Some s) = Inr s"
  by (simp add: decodeContent_def)

text \<open>
  C3. \<^verbatim>\<open>decodeContent\<close> never throws, whatever \<^verbatim>\<open>atob\<close> and the quoted-printable
  decoder do: an absent or empty argument gives the empty string, and when either
  decoding stage throws the argument itself is returned.
\<close>

theorem decodeContent_never_raises:
  "(\<exists>r. decodeContent P encoded = Inr r)
   \<and> decodeContent P None = Inr []
   \<and> decodeContent P (Some []) = Inr []
   \<and> (atob P (url_safe_to_base64 s) = Inl e \<longrightarrow> decodeContent P (Some s) = Inr s)
   \<and> (atob P (url_safe_to_base64 s) = Inr b \<and> quotedPrintable_decode P b = Inl e
        \<longrightarrow> decodeContent P (Some s) = Inr s)"
proof -
  have "atob P (url_safe_to_base64 s) = Inl e \<longrightarrow> decodeContent P (Some s) = Inr s"
    using decodeContent_fallback [of P s e] decodeContent_try_Inl_iff [of P s e] by blast
  moreover have "atob P (url_safe_to_base64 s) = Inr b \<and> quotedPrintable_decode P b = Inl e
      \<longrightarrow> decodeContent P (Some s) = Inr s"
    using decodeContent_fallback [of P s e] decodeContent_try_Inl_iff [of P s e] by blast
  moreover have "decodeContent P None = Inr []" "decodeContent P (Some []) = Inr []"
    by (simp_all add: decodeContent_def)
  ultimately show ?thesis
    using decodeContent_returns [of P encoded] by blast
qed

theorem decodeContent_never_raises_witness:
  "atob browser (url_safe_to_base64 ''a.b'') = Inl InvalidCharacterError
   \<and> decodeContent browser (Some ''a.b'') = Inr ''a.b''
   \<and> atob \<lparr> atob = Inr, quotedPrintable_decode = (\<lambda>b. Inl LibraryError) \<rparr> (url_safe_to_base64 ''x'') = Inr ''x''
   \<and> decodeContent \<lparr> atob = Inr, quotedPrintable_decode = (\<lambda>b. Inl LibraryError) \<rparr> (Some ''x'') = Inr ''x''"
proof -
  have h1: "atob browser (url_safe_to_base64 ''a.b'') = Inl InvalidCharacterError"
    by code_simp
  have h2: "atob \<lparr> atob = Inr, quotedPrintable_decode = (\<lambda>b. Inl LibraryError) \<rparr> (url_safe_to_base64 ''x'') = Inr ''x''"
    by (simp add: url_safe_to_base64_def)
  have h3: "quotedPrintable_decode \<lparr> atob = Inr, quotedPrintable_decode = (\<lambda>b. Inl LibraryError) \<rparr> ''x'' = Inl LibraryError"
    by simp
  show ?thesis
    using h1 h2 h3
      decodeContent_never_raises [of browser "Some ''a.b''" "''a.b''" InvalidCharacterError]
      decodeContent_never_raises [of "\<lparr> atob = Inr, quotedPrintable_decode = (\<lambda>b. Inl LibraryError) \<rparr>"
        "Some ''x''" "''x''" LibraryError "''x''"]
    by blast
qed

subsection \<open>Header map\<close>

lemma headers_forEach_Inl_iff:
  "headers_forEach hs obj = Inl e \<longleftrightarrow> e = TypeError \<and> (\<exists>h\<in>set hs. name h = None)"
  by (induction hs arbitrary: obj) (auto split: option.splits)

text \<open>
  C10. \<^verbatim>\<open>getEmailHeaders\<close> returns the empty mapping for an absent payload or an
  absent header list, and throws (a TypeError, from lower-casing an absent name) exactly
  when the header list is present and one of its entries has no name.
\<close>

theorem getEmailHeaders_raises:
  "getEmailHeaders None = Inr Map.empty
   \<and> (headers p = None \<longrightarrow> getEmailHeaders (Some p) = Inr Map.empty)
   \<and> (getEmailHeaders (Some p) = Inl e
        \<longleftrightarrow> e = TypeError \<and> (\<exists>hs. headers p = Some hs \<and> (\<exists>h\<in>set hs. name h = None)))"
proof (cases "headers p")
  case None
  then show ?thesis by (simp add: getEmailHeaders_def)
next
  case (Some hs)
  let ?r = "headers_forEach hs \<lparr> own = Map.empty, null_prototype = False \<rparr>"
  have "getEmailHeaders (Some p) = Inl e \<longleftrightarrow> ?r = Inl e"
    using Some by (cases ?r) (simp_all add: getEmailHeaders_def)
  then show ?thesis
    using Some by (simp add: headers_forEach_Inl_iff) (simp add: getEmailHeaders_def)
qed

theorem getEmailHeaders_raises_witness:
  "getEmailHeaders (Some (Part None None None
      (Some [\<lparr> name = Some ''Subject'', hvalue = HStr ''Hi'' \<rparr>, \<lparr> name = None, hvalue = HStr ''x'' \<rparr>])))
     = Inl TypeError
   \<and> getEmailHeaders (Some (Part None None None None)) = Inr Map.empty"
  using getEmailHeaders_raises [of "Part None None None
      (Some [\<lparr> name = Some ''Subject'', hvalue = HStr ''Hi'' \<rparr>, \<lparr> name = None, hvalue = HStr ''x'' \<rparr>])" TypeError]
    getEmailHeaders_raises [of "Part None None None None" TypeError]
  by simp

subsection \<open>Status sync channel: merging events\<close>

lemma onmessage_update:
  assumes "JSON_parse d = Inr ev" "is_update ev m s"
  shows "onmessage JSON_parse prev d = Inr (prev(m \<mapsto> s))"
  using assms
  by (simp add: onmessage_def onmessage_queued_def updater_def is_update_def)

lemma step_Received_update:
  assumes "i < length (sockets st)" "readyState (sockets st ! i) = OPEN"
    "JSON_parse d = Inr ev" "is_update ev m s"
  shows "step JSON_parse st (Received i d) = st\<lparr>verificationStatus := (verificationStatus st)(m \<mapsto> s)\<rparr>"
    and "\<not> unmounts JSON_parse st (Received i d)"
  using assms
  by (simp_all add: step_def unmounts_def onmessage_queued_def updater_def is_update_def)

lemma run_Cons:
  "run JSON_parse st (ev # evs) =
     (if unmounts JSON_parse st ev then run_from JSON_parse False (step JSON_parse st ev) evs
      else run JSON_parse (step JSON_parse st ev) evs)"
  by (simp add: run_def)

lemma run_Nil: "run JSON_parse st [] = st"
  by (simp add: run_def)

lemma verificationStatus_unmount: "verificationStatus (unmount st) = verificationStatus st"
  by (simp add: unmount_def ws_close_def Let_def split: option.splits)

lemma run_Received_updates:
  assumes "i < length (sockets st)" "readyState (sockets st ! i) = OPEN"
    "list_all2 (\<lambda>d (m, s). \<exists>ev. JSON_parse d = Inr ev \<and> is_update ev m s) ds ms"
  shows "run JSON_parse st (map (Received i) ds)
     = st\<lparr>verificationStatus := upserts (verificationStatus st) ms\<rparr>"
  using assms(3,1,2)
proof (induction ds ms arbitrary: st rule: list_all2_induct)
  case Nil
  then show ?case by (simp add: run_Nil upserts_def)
next
  case (Cons d ds p ms)
  obtain m s where p: "p = (m, s)" by (cases p)
  from Cons.hyps(1) p obtain ev where ev: "JSON_parse d = Inr ev" "is_update ev m s" by auto
  let ?st1 = "st\<lparr>verificationStatus := (verificationStatus st)(m \<mapsto> s)\<rparr>"
  have s1: "step JSON_parse st (Received i d) = ?st1"
    using Cons.prems ev by (rule step_Received_update(1))
  have s2: "\<not> unmounts JSON_parse st (Received i d)"
    using Cons.prems ev by (rule step_Received_update(2))
  have pre: "i < length (sockets ?st1)" "readyState (sockets ?st1 ! i) = OPEN"
    using Cons.prems by simp_all
  have vs1: "verificationStatus ?st1 = (verificationStatus st)(m \<mapsto> s)"
    by simp
  have upd: "?st1\<lparr>verificationStatus := upserts (verificationStatus ?st1) ms\<rparr>
      = st\<lparr>verificationStatus := upserts ((verificationStatus st)(m \<mapsto> s)) ms\<rparr>"
    unfolding vs1 by simp
  have "run JSON_parse st (map (Received i) (d # ds)) = run JSON_parse ?st1 (map (Received i) ds)"
    using s1 s2 by (simp add: run_Cons)
  also have "\<dots> = ?st1\<lparr>verificationStatus := upserts (verificationStatus ?st1) ms\<rparr>"
    by (rule Cons.IH [OF pre])
  also have "\<dots> = st\<lparr>verificationStatus := upserts ((verificationStatus st)(m \<mapsto> s)) ms\<rparr>"
    by (rule upd)
  also have "upserts ((verificationStatus st)(m \<mapsto> s)) ms = upserts (verificationStatus st) (p # ms)"
    by (simp add: upserts_def p)
  finally show ?case .
qed

lemma upserts_lookup:
  "upserts vs ms k = (case map_of (rev ms) k of None \<Rightarrow> vs k | Some v \<Rightarrow> Some v)"
proof (induction ms arbitrary: vs)
  case Nil
  then show ?case by (simp add: upserts_def)
next
  case (Cons p ms)
  obtain m s where p: "p = (m, s)" by (cases p)
  have "upserts vs (p # ms) k = upserts (vs(m \<mapsto> s)) ms k"
    by (simp add: upserts_def p)
  also have "\<dots> = (case map_of (rev ms) k of None \<Rightarrow> (vs(m \<mapsto> s)) k | Some v \<Rightarrow> Some v)"
    using Cons.IH .
  also have "\<dots> = (case map_of (rev (p # ms)) k of None \<Rightarrow> vs k | Some v \<Rightarrow> Some v)"
    by (auto simp: p map_add_def split: option.splits)
  finally show ?case .
qed

lemma Selected_keeps_others:
  assumes "step JSON_parse st (Selected r) = st'"
  shows "dom (verificationStatus st) \<subseteq> dom (verificationStatus st')"
    and "r = Some d \<Longrightarrow> k \<noteq> toPropertyKey (msg_id d) \<Longrightarrow> verificationStatus st' k = verificationStatus st k"
  using assms
  by (auto simp: step_def fetchEmailDetails_resolved_def verificationStatus_unmount
      split: option.splits if_splits)

text \<open>
  C7. A verification-status update \<open>{messageId: m, status: s}\<close> upserts \<open>m \<mapsto> s\<close> into
  the status mapping. A sequence of such updates received on an open socket leaves, for
  every message id, the status of the last update that names it, and the previous entry
  for every id that no update names; the sockets are untouched. Selecting a message
  (a resolved detail request) keeps every key and changes no entry but the one of the
  selected message. In particular \<open>confirmed\<close> then \<open>failed\<close> for \<open>m1\<close> leaves \<open>failed\<close>.
\<close>

theorem status_updates_upsert:
  "(JSON_parse d = Inr ev \<and> is_update ev m s
      \<longrightarrow> onmessage JSON_parse prev d = Inr (prev(m \<mapsto> s)))
   \<and> (i < length (sockets st) \<and> readyState (sockets st ! i) = OPEN
        \<and> list_all2 (\<lambda>d (m, s). \<exists>ev. JSON_parse d = Inr ev \<and> is_update ev m s) ds ms
      \<longrightarrow> sockets (run JSON_parse st (map (Received i) ds)) = sockets st
          \<and> (\<forall>k. verificationStatus (run JSON_parse st (map (Received i) ds)) k
                = (case map_of (rev ms) k of None \<Rightarrow> verificationStatus st k | Some v \<Rightarrow> Some v)))
   \<and> dom (verificationStatus st) \<subseteq> dom (verificationStatus (step JSON_parse st (Selected r)))
   \<and> (r = Some msg \<and> k' \<noteq> toPropertyKey (msg_id msg)
      \<longrightarrow> verificationStatus (step JSON_parse st (Selected r)) k' = verificationStatus st k')
   \<and> (i < length (sockets st) \<and> readyState (sockets st ! i) = OPEN
        \<and> JSON_parse da = Inr (JObj [(''type'', JStr ''verification_update''),
                                     (''messageId'', JStr ''m1''), (''status'', JStr ''confirmed'')])
        \<and> JSON_parse db = Inr (JObj [(''type'', JStr ''verification_update''),
                                     (''messageId'', JStr ''m1''), (''status'', JStr ''failed'')])
      \<longrightarrow> verificationStatus (run JSON_parse st [Received i da, Received i db]) ''m1''
            = Some (JStr ''failed''))"
proof -
  have a: "JSON_parse d = Inr ev \<and> is_update ev m s
      \<longrightarrow> onmessage JSON_parse prev d = Inr (prev(m \<mapsto> s))"
    using onmessage_update by blast
  have b: "i < length (sockets st) \<and> readyState (sockets st ! i) = OPEN
        \<and> list_all2 (\<lambda>d (m, s). \<exists>ev. JSON_parse d = Inr ev \<and> is_update ev m s) ds ms
      \<longrightarrow> sockets (run JSON_parse st (map (Received i) ds)) = sockets st
          \<and> (\<forall>k. verificationStatus (run JSON_parse st (map (Received i) ds)) k
                = (case map_of (rev ms) k of None \<Rightarrow> verificationStatus st k | Some v \<Rightarrow> Some v))"
  proof (intro impI, elim conjE)
    assume h: "i < length (sockets st)" "readyState (sockets st ! i) = OPEN"
      "list_all2 (\<lambda>d (m, s). \<exists>ev. JSON_parse d = Inr ev \<and> is_update ev m s) ds ms"
    have "run JSON_parse st (map (Received i) ds)
        = st\<lparr>verificationStatus := upserts (verificationStatus st) ms\<rparr>"
      using h by (rule run_Received_updates)
    then show "sockets (run JSON_parse st (map (Received i) ds)) = sockets st
          \<and> (\<forall>k. verificationStatus (run JSON_parse st (map (Received i) ds)) k
                = (case map_of (rev ms) k of None \<Rightarrow> verificationStatus st k | Some v \<Rightarrow> Some v))"
      by (simp add: upserts_lookup)
  qed
  have c: "dom (verificationStatus st) \<subseteq> dom (verificationStatus (step JSON_parse st (Selected r)))"
    using Selected_keeps_others(1) [of JSON_parse st r] by simp
  have e: "r = Some msg \<and> k' \<noteq> toPropertyKey (msg_id msg)
      \<longrightarrow> verificationStatus (step JSON_parse st (Selected r)) k' = verificationStatus st k'"
    using Selected_keeps_others(2) [of JSON_parse st r _ msg k'] by simp
  have f: "i < length (sockets st) \<and> readyState (sockets st ! i) = OPEN
        \<and> JSON_parse da = Inr (JObj [(''type'', JStr ''verification_update''),
                                     (''messageId'', JStr ''m1''), (''status'', JStr ''confirmed'')])
        \<and> JSON_parse db = Inr (JObj [(''type'', JStr ''verification_update''),
                                     (''messageId'', JStr ''m1''), (''status'', JStr ''failed'')])
      \<longrightarrow> verificationStatus (run JSON_parse st [Received i da, Received i db]) ''m1''
            = Some (JStr ''failed'')"
  proof (intro impI, elim conjE)
    assume h: "i < length (sockets st)" "readyState (sockets st ! i) = OPEN"
      and p1: "JSON_parse da = Inr (JObj [(''type'', JStr ''verification_update''),
                                     (''messageId'', JStr ''m1''), (''status'', JStr ''confirmed'')])"
      and p2: "JSON_parse db = Inr (JObj [(''type'', JStr ''verification_update''),
                                     (''messageId'', JStr ''m1''), (''status'', JStr ''failed'')])"
    have u1: "is_update (JObj [(''type'', JStr ''verification_update''),
          (''messageId'', JStr ''m1''), (''status'', JStr ''confirmed'')]) ''m1'' (JStr ''confirmed'')"
      by (simp add: is_update_def getp_def)
    have u2: "is_update (JObj [(''type'', JStr ''verification_update''),
          (''messageId'', JStr ''m1''), (''status'', JStr ''failed'')]) ''m1'' (JStr ''failed'')"
      by (simp add: is_update_def getp_def)
    have "list_all2 (\<lambda>d (m, s). \<exists>ev. JSON_parse d = Inr ev \<and> is_update ev m s) [da, db]
        [(''m1'', JStr ''confirmed''), (''m1'', JStr ''failed'')]"
      using p1 p2 u1 u2 by simp
    from run_Received_updates [OF h this]
    show "verificationStatus (run JSON_parse st [Received i da, Received i db]) ''m1''
            = Some (JStr ''failed'')"
      by (simp add: upserts_def)
  qed
  from a b c e f show ?thesis by blast
qed

theorem status_updates_upsert_witness:
  \<open>verificationStatus
     (run (\<lambda>d. if d = ''{"type":"verification_update","messageId":"m1","status":"confirmed"}''
               then Inr (JObj [(''type'', JStr ''verification_update''),
                               (''messageId'', JStr ''m1''), (''status'', JStr ''confirmed'')])
               else Inr (JObj [(''type'', JStr ''verification_update''),
                               (''messageId'', JStr ''m1''), (''status'', JStr ''failed'')]))
        (run (\<lambda>d. Inl SyntaxError) init [Subscribe ''a@x.com'', Opened 0])
        [Received 0 ''{"type":"verification_update","messageId":"m1","status":"confirmed"}'',
         Received 0 ''{"type":"verification_update","messageId":"m1","status":"failed"}''])
     ''m1'' = Some (JStr ''failed'')\<close>
proof -
  let ?st = "run (\<lambda>d. Inl SyntaxError) init [Subscribe ''a@x.com'', Opened 0]"
  have st: "?st = \<lparr> verificationStatus = Map.empty, emailData = None, loading = False, error = [],
      sockets = [\<lparr> readyState = OPEN, email = ''a@x.com'',
                   sent = [JObj [(''type'', JStr ''subscribe''), (''email'', JStr ''a@x.com'')]] \<rparr>],
      ws_current = Some 0,
      trace = [WsNew 0, WsSend 0 (JObj [(''type'', JStr ''subscribe''), (''email'', JStr ''a@x.com'')])] \<rparr>"
    by (simp add: run_def step_def socket_step_def unmounts_def connectWebSocket_def init_def
        onopen_def ws_send_def Let_def)
  have h: "0 < length (sockets ?st)" "readyState (sockets ?st ! 0) = OPEN"
    unfolding st by simp_all
  show ?thesis
    using h status_updates_upsert
      [where i = 0 and st = "?st"
         and da = \<open>''{"type":"verification_update","messageId":"m1","status":"confirmed"}''\<close>
         and db = \<open>''{"type":"verification_update","messageId":"m1","status":"failed"}''\<close>
         and JSON_parse = \<open>\<lambda>d. if d = ''{"type":"verification_update","messageId":"m1","status":"confirmed"}''
               then Inr (JObj [(''type'', JStr ''verification_update''),
                               (''messageId'', JStr ''m1''), (''status'', JStr ''confirmed'')])
               else Inr (JObj [(''type'', JStr ''verification_update''),
                               (''messageId'', JStr ''m1''), (''status'', JStr ''failed'')])\<close>]
    by simp
qed

subsection \<open>Status sync channel: malformed events\<close>

lemma onmessage_other_tag:
  assumes "JSON_parse d = Inr ev" "getp ev ''type'' = Inr t" "t \<noteq> JStr ''verification_update''"
  shows "onmessage JSON_parse prev d = Inr prev"
    and "step JSON_parse st (Received i d) = st"
    and "\<not> unmounts JSON_parse st (Received i d)"
  using assms by (simp_all add: onmessage_def onmessage_queued_def step_def unmounts_def)

lemma onmessage_unparseable:
  assumes "JSON_parse d = Inl e"
  shows "onmessage JSON_parse prev d = Inl e"
    and "step JSON_parse st (Received i d) = st"
    and "\<not> unmounts JSON_parse st (Received i d)"
  using assms by (simp_all add: onmessage_def onmessage_queued_def step_def unmounts_def)

text \<open>
  C2, as the code has it. An event whose payload parses to a value with a readable
  \<^verbatim>\<open>type\<close> other than \<^verbatim>\<open>verification_update\<close> is dropped: the handler returns,
  and the status mapping, the sockets and the rest of the state are as before. A payload
  that does not parse makes the handler throw the parser's exception; the state,
  sockets included, is as before. In both cases the component stays mounted.
\<close>

theorem malformed_event_dropped:
  "(JSON_parse d = Inr ev \<and> getp ev ''type'' = Inr t \<and> t \<noteq> JStr ''verification_update''
      \<longrightarrow> onmessage JSON_parse prev d = Inr prev
          \<and> step JSON_parse st (Received i d) = st
          \<and> \<not> unmounts JSON_parse st (Received i d))
   \<and> (JSON_parse d = Inl e
      \<longrightarrow> onmessage JSON_parse prev d = Inl e
          \<and> step JSON_parse st (Received i d) = st
          \<and> \<not> unmounts JSON_parse st (Received i d))"
proof (intro conjI impI)
  assume a: "JSON_parse d = Inr ev \<and> getp ev ''type'' = Inr t \<and> t \<noteq> JStr ''verification_update''"
  then have p: "JSON_parse d = Inr ev" and g: "getp ev ''type'' = Inr t"
    and t: "t \<noteq> JStr ''verification_update''"
    by simp_all
  show "onmessage JSON_parse prev d = Inr prev"
    using p g t by (rule onmessage_other_tag(1))
  show "step JSON_parse st (Received i d) = st"
    using p g t by (rule onmessage_other_tag(2))
  show "\<not> unmounts JSON_parse st (Received i d)"
    using p g t by (rule onmessage_other_tag(3))
next
  assume p: "JSON_parse d = Inl e"
  show "onmessage JSON_parse prev d = Inl e"
    using p by (rule onmessage_unparseable(1))
  show "step JSON_parse st (Received i d) = st"
    using p by (rule onmessage_unparseable(2))
  show "\<not> unmounts JSON_parse st (Received i d)"
    using p by (rule onmessage_unparseable(3))
qed

theorem malformed_event_dropped_witness:
  \<open>step (\<lambda>d. Inr (JObj [(''type'', JStr ''ping'')]))
      (run (\<lambda>d. Inl SyntaxError) init [Subscribe ''a@x.com'', Opened 0])
      (Received 0 ''{"type":"ping"}'')
     = run (\<lambda>d. Inl SyntaxError) init [Subscribe ''a@x.com'', Opened 0]
   \<and> onmessage (\<lambda>d. Inl SyntaxError) Map.empty ''not json'' = Inl SyntaxError
   \<and> step (\<lambda>d. Inl SyntaxError)
      (run (\<lambda>d. Inl SyntaxError) init [Subscribe ''a@x.com'', Opened 0])
      (Received 0 ''not json'')
     = run (\<lambda>d. Inl SyntaxError) init [Subscribe ''a@x.com'', Opened 0]\<close>
proof -
  have "getp (JObj [(''type'', JStr ''ping'')]) ''type'' = Inr (JStr ''ping'')"
    by (simp add: getp_def)
  then show ?thesis
    using malformed_event_dropped
      [where JSON_parse = "\<lambda>d. Inr (JObj [(''type'', JStr ''ping'')])"
         and ev = "JObj [(''type'', JStr ''ping'')]" and t = "JStr ''ping''" and i = 0
         and st = "run (\<lambda>d. Inl SyntaxError) init [Subscribe ''a@x.com'', Opened 0]"
         and d = \<open>''{"type":"ping"}''\<close>]
      malformed_event_dropped
      [where JSON_parse = "\<lambda>d. Inl SyntaxError" and e = SyntaxError and i = 0
         and st = "run (\<lambda>d. Inl SyntaxError) init [Subscribe ''a@x.com'', Opened 0]"
         and prev = Map.empty and d = "''not json''"]
    by simp
qed

text \<open>
  An update without \<^verbatim>\<open>messageId\<close> is not dropped: it is recorded under the key
  \<^verbatim>\<open>undefined\<close>. A payload that does not parse makes the handler throw. The
  parser is instantiated with what \<^verbatim>\<open>JSON.parse\<close> gives on the text shown: the
  object with the two fields, and a SyntaxError.
\<close>

theorem malformed_event_counterexample:
  \<open>onmessage (\<lambda>d. Inr (JObj [(''type'', JStr ''verification_update''), (''status'', JStr ''confirmed'')]))
      Map.empty ''{"type":"verification_update","status":"confirmed"}''
     = Inr [''undefined'' \<mapsto> JStr ''confirmed'']
   \<and> [''undefined'' \<mapsto> JStr ''confirmed''] \<noteq> (Map.empty :: string \<rightharpoonup> jsval)
   \<and> onmessage (\<lambda>d. Inl SyntaxError) Map.empty ''not json'' = Inl SyntaxError\<close>
  by (simp add: onmessage_def onmessage_queued_def updater_def getp_def)

subsection \<open>Status sync channel: one live connection\<close>

lemma owned_iff:
  "owned st \<longleftrightarrow> (\<forall>i<length (sockets st). live (sockets st ! i) \<longrightarrow> ws_current st = Some i)"
  by (auto simp: owned_def live_sockets_def list_all_iff)

lemma owned_init: "owned init"
  by (simp add: owned_iff init_def)

lemma filter_upt_last:
  assumes "\<forall>i<n. \<not> Q i" "Q n"
  shows "filter Q [0..<Suc n] = [n]"
proof -
  have "filter Q [0..<n] = []"
    using assms(1) by (simp add: filter_empty_conv)
  then show ?thesis using assms(2) by simp
qed

lemma owned_at_most_one: 
  assumes "owned st"
  shows "length (live_sockets st) \<le> 1"
proof (cases "ws_current st")
  case None
  then have "live_sockets st = []"
    using assms by (cases "live_sockets st") (simp_all add: owned_def)
  then show ?thesis by simp
next
  case (Some j)
  have d: "distinct (live_sockets st)"
    by (simp add: live_sockets_def)
  have "set (live_sockets st) \<subseteq> {j}"
    using assms Some by (auto simp: owned_def list_all_iff)
  then have "card (set (live_sockets st)) \<le> card {j}"
    by (intro card_mono) simp_all
  then show ?thesis
    using d by (simp add: distinct_card)
qed

lemma ws_close_sockets:
  "length (sockets (ws_close i st)) = length (sockets st)"
  "ws_current (ws_close i st) = ws_current st"
  "trace (ws_close i st) = trace st @ [WsClose i]"
  "k < length (sockets st) \<Longrightarrow> email (sockets (ws_close i st) ! k) = email (sockets st ! k)"
  "k < length (sockets st) \<Longrightarrow> live (sockets (ws_close i st) ! k) \<longleftrightarrow> k \<noteq> i \<and> live (sockets st ! k)"
  by (auto simp: ws_close_def Let_def nth_list_update live_def)

lemma unmount_facts:
  "length (sockets (unmount st)) = length (sockets st)"
  "k < length (sockets st) \<Longrightarrow> email (sockets (unmount st) ! k) = email (sockets st ! k)"
  "owned st \<Longrightarrow> k < length (sockets st) \<Longrightarrow> \<not> live (sockets (unmount st) ! k)"
  by (auto simp: unmount_def ws_close_sockets owned_iff split: option.splits)

lemma unmount_trace:
  "trace (unmount st) = trace st @ (case ws_current st of None \<Rightarrow> [] | Some i \<Rightarrow> [WsClose i])"
  by (simp add: unmount_def ws_close_sockets split: option.splits)

lemma connectWebSocket_alt:
  "connectWebSocket em st =
     (unmount st)\<lparr>sockets := sockets (unmount st) @ [\<lparr> readyState = CONNECTING, email = em, sent = [] \<rparr>],
        ws_current := Some (length (sockets st)),
        trace := trace (unmount st) @ [WsNew (length (sockets st))]\<rparr>"
  by (simp add: connectWebSocket_def unmount_def Let_def ws_close_sockets split: option.splits)

lemma connectWebSocket_facts:
  "length (sockets (connectWebSocket em st)) = Suc (length (sockets st))"
  "ws_current (connectWebSocket em st) = Some (length (sockets st))"
  "sockets (connectWebSocket em st) ! length (sockets st) = \<lparr> readyState = CONNECTING, email = em, sent = [] \<rparr>"
  "trace (connectWebSocket em st)
     = trace st @ (case ws_current st of None \<Rightarrow> [] | Some i \<Rightarrow> [WsClose i]) @ [WsNew (length (sockets st))]"
  "verificationStatus (connectWebSocket em st) = verificationStatus st"
     apply (simp_all add: connectWebSocket_alt unmount_facts unmount_trace nth_append)
  apply (simp add: unmount_def ws_close_def Let_def split: option.splits)
  done

lemma connectWebSocket_live:
  assumes "owned st" "k < length (sockets st)"
  shows "\<not> live (sockets (connectWebSocket em st) ! k)"
  using assms by (simp add: connectWebSocket_alt unmount_facts nth_append)

lemma connectWebSocket_live_sockets:
  assumes "owned st"
  shows "live_sockets (connectWebSocket em st) = [length (sockets st)]"
proof -
  let ?st' = "connectWebSocket em st"
  have "\<forall>i<length (sockets st). \<not> live (sockets ?st' ! i)"
    using connectWebSocket_live [OF assms] by blast
  moreover have "live (sockets ?st' ! length (sockets st))"
    by (simp add: connectWebSocket_facts live_def)
  ultimately have "filter (\<lambda>i. live (sockets ?st' ! i)) [0..<Suc (length (sockets st))] = [length (sockets st)]"
    by (rule filter_upt_last)
  then show ?thesis
    by (simp add: live_sockets_def connectWebSocket_facts)
qed

lemma owned_connectWebSocket:
  assumes "owned st"
  shows "owned (connectWebSocket em st)"
  by (simp add: owned_def connectWebSocket_live_sockets [OF assms] connectWebSocket_facts)

lemma ws_send_live:
  assumes "ws_send j msg st = Inr st'"
  shows "length (sockets st') = length (sockets st)" "ws_current st' = ws_current st"
    "k < length (sockets st) \<Longrightarrow> live (sockets st' ! k) = live (sockets st ! k)"
  using assms
  by (auto simp: ws_send_def live_def nth_list_update split: if_splits readyState.splits)

lemma owned_unmount:
  assumes "owned st"
  shows "owned (unmount st)"
  using assms unmount_facts(1,3) [of st] by (simp add: owned_iff)

lemma owned_socket_step:
  assumes "owned st"
  shows "owned (socket_step st ev)"
proof (cases ev)
  case (Subscribe em)
  then show ?thesis using assms by (simp add: socket_step_def owned_connectWebSocket)
next
  case (Opened i)
  show ?thesis
  proof (cases "i < length (sockets st) \<and> readyState (sockets st ! i) = CONNECTING")
    case False
    then show ?thesis using assms Opened by (auto simp: socket_step_def)
  next
    case True
    let ?st1 = "st\<lparr>sockets := (sockets st)[i := (sockets st ! i)\<lparr>readyState := OPEN\<rparr>]\<rparr>"
    have o1: "owned ?st1"
      using assms True by (auto simp: owned_iff nth_list_update live_def)
    have "owned (case onopen i ?st1 of Inl e \<Rightarrow> ?st1 | Inr st2 \<Rightarrow> st2)"
    proof (cases "onopen i ?st1")
      case (Inl e)
      then show ?thesis using o1 by simp
    next
      case (Inr st2)
      then obtain j msg where "ws_send j msg ?st1 = Inr st2"
        by (auto simp: onopen_def split: option.splits)
      from ws_send_live [OF this] o1 have "owned st2"
        by (simp add: owned_iff)
      then show ?thesis using Inr by simp
    qed
    then show ?thesis using True Opened by (simp add: socket_step_def Let_def)
  qed
next
  case (Received i d)
  then show ?thesis using assms by (simp add: socket_step_def)
next
  case (Failed i)
  then show ?thesis using assms by (simp add: socket_step_def)
next
  case (Closed i)
  then show ?thesis using assms
    by (auto simp: socket_step_def owned_iff nth_list_update live_def)
next
  case (Selected r)
  then show ?thesis using assms by (simp add: socket_step_def)
qed

lemma owned_step:
  assumes "owned st"
  shows "owned (step JSON_parse st ev)"
proof (cases ev)
  case (Received i d)
  have "owned (st\<lparr>verificationStatus := vs\<rparr>)" for vs
    using assms by (simp add: owned_iff)
  then show ?thesis
    using assms Received owned_unmount [OF assms]
    by (simp add: step_def split: sum.splits option.splits)
next
  case (Selected r)
  have "owned st'" if "fetchEmailDetails_resolved r st = Inr st'" for st'
    using that assms
    by (auto simp: fetchEmailDetails_resolved_def owned_iff split: option.splits if_splits)
  then show ?thesis
    using Selected owned_unmount [OF assms]
    by (simp add: step_def split: sum.splits)
next
  case (Subscribe em)
  then show ?thesis using owned_socket_step [OF assms, of ev] by (simp add: step_def)
next
  case (Opened i)
  then show ?thesis using owned_socket_step [OF assms, of ev] by (simp add: step_def)
next
  case (Failed i)
  then show ?thesis using owned_socket_step [OF assms, of ev] by (simp add: step_def)
next
  case (Closed i)
  then show ?thesis using owned_socket_step [OF assms, of ev] by (simp add: step_def)
qed

lemma owned_run_from:
  assumes "owned st"
  shows "owned (run_from JSON_parse mounted st evs)"
  using assms
  by (induction evs arbitrary: st mounted) (simp_all add: owned_step owned_socket_step)

lemma owned_run:
  assumes "owned st"
  shows "owned (run JSON_parse st evs)"
  unfolding run_def using assms by (rule owned_run_from)

lemma Opened_sends_subscription:
  assumes "ws_current st = Some i" "i < length (sockets st)" "readyState (sockets st ! i) = CONNECTING"
  shows "sent (sockets (step JSON_parse st (Opened i)) ! i)
    = sent (sockets st ! i) @ [JObj [(''type'', JStr ''subscribe''), (''email'', JStr (email (sockets st ! i)))]]"
    and "readyState (sockets (step JSON_parse st (Opened i)) ! i) = OPEN"
  using assms by (simp_all add: step_def socket_step_def onopen_def ws_send_def Let_def)

text \<open>
  C8. In every state the component can reach, at most one socket is connecting or open.
  From such a state, \<^verbatim>\<open>connectWebSocket(a)\<close> followed by \<^verbatim>\<open>connectWebSocket(b)\<close>
  leaves exactly one live socket, the one just created, which \<^verbatim>\<open>ws.current\<close> refers
  to; the socket created for \<open>a\<close> is no longer live, and \<^verbatim>\<open>close()\<close> was called on
  it before the socket for \<open>b\<close> was created. When the new socket opens, the one message
  sent on it is the subscription for \<open>b\<close>.
\<close>

theorem subscribe_twice_one_connection:
  "length (live_sockets (run JSON_parse init evs)) \<le> 1
   \<and> (let st = run JSON_parse init evs;
           n = length (sockets st);
           st1 = connectWebSocket a st;
           st2 = connectWebSocket b st1
       in live_sockets st1 = [n]
          \<and> live_sockets st2 = [Suc n]
          \<and> ws_current st2 = Some (Suc n)
          \<and> sockets st2 ! Suc n = \<lparr> readyState = CONNECTING, email = b, sent = [] \<rparr>
          \<and> \<not> live (sockets st2 ! n)
          \<and> last (trace st1) = WsNew n
          \<and> trace st2 = trace st1 @ [WsClose n, WsNew (Suc n)]
          \<and> readyState (sockets (step JSON_parse st2 (Opened (Suc n))) ! Suc n) = OPEN
          \<and> sent (sockets (step JSON_parse st2 (Opened (Suc n))) ! Suc n)
              = [JObj [(''type'', JStr ''subscribe''), (''email'', JStr b)]])"
proof -
  define st where "st = run JSON_parse init evs"
  define n where "n = length (sockets st)"
  define st1 where "st1 = connectWebSocket a st"
  define st2 where "st2 = connectWebSocket b st1"
  have o: "owned st"
    unfolding st_def using owned_init by (rule owned_run)
  have o1: "owned st1"
    unfolding st1_def using o by (rule owned_connectWebSocket)
  have len1: "length (sockets st1) = Suc n"
    by (simp add: st1_def n_def connectWebSocket_facts)
  have cur1: "ws_current st1 = Some n"
    by (simp add: st1_def n_def connectWebSocket_facts)
  have l1: "live_sockets st1 = [n]"
    unfolding st1_def n_def using o by (rule connectWebSocket_live_sockets)
  have l2: "live_sockets st2 = [Suc n]"
    using connectWebSocket_live_sockets [OF o1, of b] by (simp add: st2_def len1)
  have cur2: "ws_current st2 = Some (Suc n)"
    by (simp add: st2_def connectWebSocket_facts len1)
  have new2: "sockets st2 ! Suc n = \<lparr> readyState = CONNECTING, email = b, sent = [] \<rparr>"
    using connectWebSocket_facts(3) [of b st1] by (simp add: st2_def len1)
  have dead: "\<not> live (sockets st2 ! n)"
    using connectWebSocket_live [OF o1, of n b] by (simp add: st2_def len1)
  have t1: "last (trace st1) = WsNew n"
    by (simp add: st1_def n_def connectWebSocket_facts)
  have t2: "trace st2 = trace st1 @ [WsClose n, WsNew (Suc n)]"
    by (simp add: st2_def connectWebSocket_facts cur1 len1)
  have len2: "Suc n < length (sockets st2)"
    by (simp add: st2_def connectWebSocket_facts len1)
  have c2: "readyState (sockets st2 ! Suc n) = CONNECTING"
    by (simp add: new2)
  have op: "readyState (sockets (step JSON_parse st2 (Opened (Suc n))) ! Suc n) = OPEN"
    using cur2 len2 c2 by (rule Opened_sends_subscription(2))
  have sn: "sent (sockets (step JSON_parse st2 (Opened (Suc n))) ! Suc n)
      = [JObj [(''type'', JStr ''subscribe''), (''email'', JStr b)]]"
    using Opened_sends_subscription(1) [OF cur2 len2 c2, of JSON_parse] by (simp add: new2)
  have "length (live_sockets st) \<le> 1"
    using o by (rule owned_at_most_one)
  then show ?thesis
    using l1 l2 cur2 new2 dead t1 t2 op sn
    unfolding Let_def st_def [symmetric] n_def [symmetric] st1_def [symmetric] st2_def [symmetric]
    by blast
qed

theorem subscribe_twice_one_connection_witness:
  "live_sockets (connectWebSocket ''b@x.com'' (connectWebSocket ''a@x.com'' init)) = [1]
   \<and> map readyState (sockets (connectWebSocket ''b@x.com'' (connectWebSocket ''a@x.com'' init)))
       = [CLOSING, CONNECTING]
   \<and> trace (connectWebSocket ''b@x.com'' (connectWebSocket ''a@x.com'' init))
       = [WsNew 0, WsClose 0, WsNew 1]"
proof -
  have "map readyState (sockets (connectWebSocket ''b@x.com'' (connectWebSocket ''a@x.com'' init)))
       = [CLOSING, CONNECTING]"
    by (simp add: connectWebSocket_def ws_close_def init_def live_def Let_def)
  moreover have "trace (connectWebSocket ''a@x.com'' init) = [WsNew 0]"
    by (simp add: connectWebSocket_def init_def Let_def)
  ultimately show ?thesis
    using subscribe_twice_one_connection [of "\<lambda>d. Inl SyntaxError" "[]" "''a@x.com''" "''b@x.com''"]
    by (simp add: run_def Let_def init_def)
qed

subsection \<open>Part-tree walk\<close>

lemma last_decoded_append:
  "last_decoded P d (xs @ ys) = last_decoded P (last_decoded P d xs) ys"
  by (simp add: last_decoded_def)

lemma decodeContent_decoded: "decodeContent P (body_data p) = Inr (decoded P p)"
  using decodeContent_returns [of P "body_data p"] by (auto simp: decoded_def)

lemma not_both: "is_plain p \<Longrightarrow> \<not> is_html p"
  by (simp add: is_plain_def is_html_def)

lemma findParts_plain:
  "is_plain p \<Longrightarrow> findParts P (Some p) acc = Inr (acc\<lparr>textContent := decoded P p\<rparr>)"
  by (cases p) (simp add: is_plain_def decodeContent_decoded)

lemma findParts_html:
  "is_html p \<Longrightarrow> findParts P (Some p) acc = Inr (acc\<lparr>htmlContent := decoded P p\<rparr>)"
  by (cases p) (auto simp: is_html_def decodeContent_decoded)

lemma findParts_container:
  "\<not> is_plain p \<Longrightarrow> \<not> is_html p \<Longrightarrow>
   findParts P (Some p) acc = (case parts p of None \<Rightarrow> Inr acc | Some children \<Rightarrow> findParts_forEach P children acc)"
  by (cases p) (auto simp: is_plain_def is_html_def split: option.splits)

lemma visited_Some:
  "visited (Some p) =
     p # (if is_plain p \<or> is_html p then []
          else (case parts p of None \<Rightarrow> [] | Some children \<Rightarrow> visited_list children))"
  by (cases p) simp

lemma findParts_visited:
  "findParts P po acc =
     Inr \<lparr> textContent = last_decoded P (textContent acc) (filter is_plain (visited po)),
           htmlContent = last_decoded P (htmlContent acc) (filter is_html (visited po)) \<rparr>"
  "findParts_forEach P pos acc =
     Inr \<lparr> textContent = last_decoded P (textContent acc) (filter is_plain (visited_list pos)),
           htmlContent = last_decoded P (htmlContent acc) (filter is_html (visited_list pos)) \<rparr>"
proof (induction P po acc and P pos acc rule: findParts_findParts_forEach.induct)
  case (1 P acc)
  then show ?case by (simp add: last_decoded_def)
next
  case (2 P mt b ps hs acc)
  let ?p = "Part mt b ps hs"
  show ?case
  proof (cases "is_plain ?p")
    case True
    show ?thesis
      unfolding findParts_plain [OF True] visited_Some
      using True not_both [OF True] by (simp add: last_decoded_def)
  next
    case np: False
    show ?thesis
    proof (cases "is_html ?p")
      case True
      show ?thesis
        unfolding findParts_html [OF True] visited_Some
        using True np by (simp add: last_decoded_def)
    next
      case nh: False
      have c1: "\<not> (mt = Some ''text/plain'' \<and> truthy (body_data ?p))"
        using np by (simp add: is_plain_def)
      have c2: "\<not> (mt = Some ''text/html'' \<and> truthy (body_data ?p))"
        using nh by (simp add: is_html_def)
      show ?thesis
      proof (cases ps)
        case None
        show ?thesis
          unfolding findParts_container [OF np nh] visited_Some
          using np nh None by (simp add: last_decoded_def)
      next
        case (Some children)
        show ?thesis
        proof (cases "children = []")
          case True
          show ?thesis
            unfolding findParts_container [OF np nh] visited_Some
            using np nh Some True by (simp add: last_decoded_def)
        next
          case False
          then have "0 < length children" by simp
          from "2.IH" [OF c1 c2 Some this]
          show ?thesis
            unfolding findParts_container [OF np nh] visited_Some
            using np nh Some by simp
        qed
      qed
    qed
  qed
next
  case (3 P acc)
  then show ?case by (simp add: last_decoded_def)
next
  case (4 P child rest acc)
  then show ?case
    by (simp add: last_decoded_append)
qed

lemma findParts_returns: "\<exists>acc'. findParts P po acc = Inr acc'"
  by (simp add: findParts_visited)

lemma visited_dfs:
  "list_all (\<lambda>q. leaf q \<or> \<not> (is_plain q \<or> is_html q)) (dfs po) \<Longrightarrow> visited po = dfs po"
  "list_all (\<lambda>q. leaf q \<or> \<not> (is_plain q \<or> is_html q)) (dfs_list pos) \<Longrightarrow> visited_list pos = dfs_list pos"
proof (induction po and pos rule: dfs_dfs_list.induct)
  case 1
  then show ?case by simp
next
  case (2 mt b ps hs)
  then show ?case
    by (cases ps) (auto simp: leaf_def)
next
  case 3
  then show ?case by simp
next
  case (4 child rest)
  then show ?case by simp
qed

lemma extractEmailContent_visited:
  "extractEmailContent P pl =
     Inr \<lparr> textContent = last_decoded P [] (filter is_plain (visited pl)),
           htmlContent = last_decoded P [] (filter is_html (visited pl)) \<rparr>"
  by (cases pl) (simp_all add: extractEmailContent_def findParts_visited last_decoded_def)

lemma subseq_visited_dfs:
  "subseq (visited po) (dfs po)"
  "subseq (visited_list pos) (dfs_list pos)"
proof (induction po and pos rule: dfs_dfs_list.induct)
  case 1
  then show ?case by simp
next
  case (2 mt b ps hs)
  then show ?case by (cases ps) auto
next
  case 3
  then show ?case by simp
next
  case (4 child rest)
  then show ?case by (simp add: list_emb_append_mono)
qed

lemma visited_list_append: "visited_list (xs @ ys) = visited_list xs @ visited_list ys"
  by (induction xs) simp_all

lemma findParts_forEach_append:
  "findParts_forEach P (xs @ ys) acc =
     (case findParts_forEach P xs acc of Inl e \<Rightarrow> Inl e | Inr a \<Rightarrow> findParts_forEach P ys a)"
  by (induction xs arbitrary: acc) (simp_all split: sum.splits)

lemma findParts_container_visited:
  assumes "\<not> is_plain p" "\<not> is_html p" "parts p = Some children"
  shows "findParts P (Some p) acc =
     Inr \<lparr> textContent = last_decoded P (textContent acc) (filter is_plain (visited_list children)),
           htmlContent = last_decoded P (htmlContent acc) (filter is_html (visited_list children)) \<rparr>"
  using assms by (simp add: findParts_container findParts_visited(2))

lemma findParts_child_walked:
  assumes "\<not> is_plain p" "\<not> is_html p" "parts p = Some (before @ child # after)"
  shows "findParts P (Some p) acc =
     (case findParts_forEach P before acc of
        Inl e \<Rightarrow> Inl e
      | Inr a1 \<Rightarrow>
          (case findParts P child a1 of
             Inl e \<Rightarrow> Inl e
           | Inr a2 \<Rightarrow> findParts_forEach P after a2))"
  using assms by (simp add: findParts_container findParts_forEach_append split: sum.splits)

lemma findParts_plain_child:
  assumes "\<not> is_plain p" "\<not> is_html p" "parts p = Some (before @ Some c # after)"
    "is_plain c" "filter is_plain (visited_list after) = []"
  shows "findParts P (Some p) acc =
     Inr \<lparr> textContent = decoded P c,
           htmlContent = last_decoded P (htmlContent acc)
             (filter is_html (visited_list (before @ Some c # after))) \<rparr>"
proof -
  have "visited (Some c) = [c]"
    using assms(4) by (simp add: visited_Some)
  then have "filter is_plain (visited_list (before @ Some c # after))
      = filter is_plain (visited_list before) @ [c]"
    using assms(4,5) by (simp add: visited_list_append)
  then have "last_decoded P (textContent acc) (filter is_plain (visited_list (before @ Some c # after)))
      = decoded P c"
    by (simp add: last_decoded_def)
  then show ?thesis
    using findParts_container_visited [OF assms(1,2,3), of P acc] by simp
qed

lemma findParts_html_child:
  assumes "\<not> is_plain p" "\<not> is_html p" "parts p = Some (before @ Some c # after)"
    "is_html c" "filter is_html (visited_list after) = []"
  shows "findParts P (Some p) acc =
     Inr \<lparr> textContent = last_decoded P (textContent acc)
             (filter is_plain (visited_list (before @ Some c # after))),
           htmlContent = decoded P c \<rparr>"
proof -
  have "visited (Some c) = [c]"
    using assms(4) by (simp add: visited_Some)
  then have "filter is_html (visited_list (before @ Some c # after))
      = filter is_html (visited_list before) @ [c]"
    using assms(4,5) by (simp add: visited_list_append)
  then have "last_decoded P (htmlContent acc) (filter is_html (visited_list (before @ Some c # after)))
      = decoded P c"
    by (simp add: last_decoded_def)
  then show ?thesis
    using findParts_container_visited [OF assms(1,2,3), of P acc] by simp
qed

text \<open>
  C1, as the code has it: every matching part that the walk reaches overwrites the
  variable, so the last one wins. \<^verbatim>\<open>textContent\<close> is the decoded data of the last
  visited part whose type is exactly \<^verbatim>\<open>text/plain\<close> and whose body data is
  non-empty (the empty string when there is none), and likewise \<^verbatim>\<open>htmlContent\<close>
  for \<^verbatim>\<open>text/html\<close>. The visited parts are, in depth-first children-in-order
  sequence, the parts that do not lie below a part supplying content; they are all the
  parts of the tree when every part that supplies content is a leaf, and then the
  fields come from the last matching leaf of the depth-first traversal. For two
  plain-text leaves decoding to \<open>A\<close> then \<open>B\<close>, \<^verbatim>\<open>textContent\<close> is \<open>B\<close>. A
  plain-text part below an HTML part with data is not reached.
\<close>

theorem extractEmailContent_last_wins:
  "extractEmailContent P pl =
     Inr \<lparr> textContent = last_decoded P [] (filter is_plain (visited pl)),
           htmlContent = last_decoded P [] (filter is_html (visited pl)) \<rparr>
   \<and> subseq (visited pl) (dfs pl)
   \<and> (list_all (\<lambda>q. leaf q \<or> \<not> (is_plain q \<or> is_html q)) (dfs pl)
        \<longrightarrow> visited pl = dfs pl
            \<and> extractEmailContent P pl =
                Inr \<lparr> textContent = last_decoded P [] (filter is_plain (dfs pl)),
                      htmlContent = last_decoded P [] (filter is_html (dfs pl)) \<rparr>)
   \<and> (dA \<noteq> [] \<and> dB \<noteq> [] \<and> decodeContent P (Some dA) = Inr A \<and> decodeContent P (Some dB) = Inr B
        \<longrightarrow> extractEmailContent P
              (Some (Part mt None
                 (Some [Some (Part (Some ''text/plain'') (Some (Body (Some dA))) None hA),
                        Some (Part (Some ''text/plain'') (Some (Body (Some dB))) None hB)]) h))
            = Inr \<lparr> textContent = B, htmlContent = [] \<rparr>)
   \<and> extractEmailContent browser
        (Some (Part (Some ''text/html'') (Some (Body (Some ''QQ=='')))
           (Some [Some (Part (Some ''text/plain'') (Some (Body (Some ''Qg==''))) None None)]) None))
      = Inr \<lparr> textContent = [], htmlContent = ''A'' \<rparr>"
proof -
  have v: "extractEmailContent P pl =
     Inr \<lparr> textContent = last_decoded P [] (filter is_plain (visited pl)),
           htmlContent = last_decoded P [] (filter is_html (visited pl)) \<rparr>"
    by (rule extractEmailContent_visited)
  have s: "subseq (visited pl) (dfs pl)"
    by (rule subseq_visited_dfs(1))
  have d: "list_all (\<lambda>q. leaf q \<or> \<not> (is_plain q \<or> is_html q)) (dfs pl)
        \<longrightarrow> visited pl = dfs pl
            \<and> extractEmailContent P pl =
                Inr \<lparr> textContent = last_decoded P [] (filter is_plain (dfs pl)),
                      htmlContent = last_decoded P [] (filter is_html (dfs pl)) \<rparr>"
  proof
    assume "list_all (\<lambda>q. leaf q \<or> \<not> (is_plain q \<or> is_html q)) (dfs pl)"
    then have e: "visited pl = dfs pl"
      by (rule visited_dfs(1))
    show "visited pl = dfs pl
            \<and> extractEmailContent P pl =
                Inr \<lparr> textContent = last_decoded P [] (filter is_plain (dfs pl)),
                      htmlContent = last_decoded P [] (filter is_html (dfs pl)) \<rparr>"
      using v unfolding e by simp
  qed
  have ab: "dA \<noteq> [] \<and> dB \<noteq> [] \<and> decodeContent P (Some dA) = Inr A \<and> decodeContent P (Some dB) = Inr B
        \<longrightarrow> extractEmailContent P
              (Some (Part mt None
                 (Some [Some (Part (Some ''text/plain'') (Some (Body (Some dA))) None hA),
                        Some (Part (Some ''text/plain'') (Some (Body (Some dB))) None hB)]) h))
            = Inr \<lparr> textContent = B, htmlContent = [] \<rparr>"
    by (simp add: extractEmailContent_def body_data_def truthy_def)
  have m: "extractEmailContent browser
        (Some (Part (Some ''text/html'') (Some (Body (Some ''QQ=='')))
           (Some [Some (Part (Some ''text/plain'') (Some (Body (Some ''Qg==''))) None None)]) None))
      = Inr \<lparr> textContent = [], htmlContent = ''A'' \<rparr>"
    by code_simp
  from v s d ab m show ?thesis by (intro conjI)
qed

theorem extractEmailContent_last_wins_witness:
  "extractEmailContent browser
     (Some (Part (Some ''multipart/alternative'') None
        (Some [Some (Part (Some ''text/plain'') (Some (Body (Some ''QQ==''))) None None),
               Some (Part (Some ''text/html'') (Some (Body (Some ''PGI-QjwvYj4=''))) None None),
               Some (Part (Some ''text/plain'') (Some (Body (Some ''Qg==''))) None None)]) None))
    = Inr \<lparr> textContent = ''B'', htmlContent = ''<b>B</b>'' \<rparr>"
proof -
  let ?a = "Part (Some ''text/plain'') (Some (Body (Some ''QQ==''))) None None"
  let ?h = "Part (Some ''text/html'') (Some (Body (Some ''PGI-QjwvYj4=''))) None None"
  let ?b = "Part (Some ''text/plain'') (Some (Body (Some ''Qg==''))) None None"
  let ?p = "Part (Some ''multipart/alternative'') None (Some [Some ?a, Some ?h, Some ?b]) None"
  have l: "list_all (\<lambda>q. leaf q \<or> \<not> (is_plain q \<or> is_html q)) (dfs (Some ?p))"
    by (simp add: is_plain_def is_html_def body_data_def truthy_def leaf_def)
  have v: "filter is_plain (dfs (Some ?p)) = [?a, ?b]" "filter is_html (dfs (Some ?p)) = [?h]"
    by (simp_all add: is_plain_def is_html_def body_data_def truthy_def)
  have d: "decoded browser ?b = ''B''" "decoded browser ?h = ''<b>B</b>''"
    by code_simp+
  have "extractEmailContent browser (Some ?p) =
     Inr \<lparr> textContent = last_decoded browser [] (filter is_plain (dfs (Some ?p))),
           htmlContent = last_decoded browser [] (filter is_html (dfs (Some ?p))) \<rparr>"
    using extractEmailContent_last_wins [of browser "Some ?p"] l by blast
  then show ?thesis
    unfolding v by (simp add: d last_decoded_def)
qed

text \<open>Two plain-text leaves decoding to \<open>A\<close> then \<open>B\<close>: the text is \<open>B\<close>, not \<open>A\<close>.\<close>

theorem extractEmailContent_first_wins_counterexample:
  "extractEmailContent browser
     (Some (Part (Some ''multipart/alternative'') None
        (Some [Some (Part (Some ''text/plain'') (Some (Body (Some ''QQ==''))) None None),
               Some (Part (Some ''text/plain'') (Some (Body (Some ''Qg==''))) None None)]) None))
    = Inr \<lparr> textContent = ''B'', htmlContent = [] \<rparr>
   \<and> decodeContent browser (Some ''QQ=='') = Inr ''A''
   \<and> decodeContent browser (Some ''Qg=='') = Inr ''B''"
  by code_simp

text \<open>
  C9, as the code has it. A part that supplies no content itself (its type is not one of
  the two, or its body data is absent or empty) and has parts is recursed into, whatever
  its type: each child is walked in turn, in order, starting from what the children
  before it left; the result is decided by the parts visited below it; and a child that
  supplies plain text (or HTML) gives the text (the HTML) when no part visited after it
  does. Such a part without parts is skipped and the result so far is kept. A part that
  supplies content is taken and its parts are not visited. The walk never throws.
\<close>

theorem findParts_recursion:
  "(\<not> is_plain p \<and> \<not> is_html p \<and> parts p = Some (before @ child # after)
      \<longrightarrow> findParts P (Some p) acc =
            (case findParts_forEach P before acc of
               Inl e \<Rightarrow> Inl e
             | Inr a1 \<Rightarrow>
                 (case findParts P child a1 of
                    Inl e \<Rightarrow> Inl e
                  | Inr a2 \<Rightarrow> findParts_forEach P after a2)))
   \<and> (\<not> is_plain p \<and> \<not> is_html p \<and> parts p = Some children
      \<longrightarrow> findParts P (Some p) acc =
            Inr \<lparr> textContent = last_decoded P (textContent acc) (filter is_plain (visited_list children)),
                  htmlContent = last_decoded P (htmlContent acc) (filter is_html (visited_list children)) \<rparr>)
   \<and> (\<not> is_plain p \<and> \<not> is_html p \<and> parts p = Some (before @ Some c # after)
        \<and> is_plain c \<and> filter is_plain (visited_list after) = []
      \<longrightarrow> findParts P (Some p) acc =
            Inr \<lparr> textContent = decoded P c,
                  htmlContent = last_decoded P (htmlContent acc)
                    (filter is_html (visited_list (before @ Some c # after))) \<rparr>)
   \<and> (\<not> is_plain p \<and> \<not> is_html p \<and> parts p = Some (before @ Some c # after)
        \<and> is_html c \<and> filter is_html (visited_list after) = []
      \<longrightarrow> findParts P (Some p) acc =
            Inr \<lparr> textContent = last_decoded P (textContent acc)
                    (filter is_plain (visited_list (before @ Some c # after))),
                  htmlContent = decoded P c \<rparr>)
   \<and> (\<not> is_plain p \<and> \<not> is_html p \<and> leaf p \<longrightarrow> findParts P (Some p) acc = Inr acc)
   \<and> (is_plain p \<longrightarrow> findParts P (Some p) acc = Inr (acc\<lparr>textContent := decoded P p\<rparr>))
   \<and> (is_html p \<longrightarrow> findParts P (Some p) acc = Inr (acc\<lparr>htmlContent := decoded P p\<rparr>))
   \<and> (\<exists>acc'. findParts P po acc = Inr acc')"
proof (intro conjI impI)
  assume "\<not> is_plain p \<and> \<not> is_html p \<and> parts p = Some (before @ child # after)"
  then show "findParts P (Some p) acc =
            (case findParts_forEach P before acc of
               Inl e \<Rightarrow> Inl e
             | Inr a1 \<Rightarrow>
                 (case findParts P child a1 of
                    Inl e \<Rightarrow> Inl e
                  | Inr a2 \<Rightarrow> findParts_forEach P after a2))"
    using findParts_child_walked [of p before child after P acc] by blast
next
  assume "\<not> is_plain p \<and> \<not> is_html p \<and> parts p = Some children"
  then show "findParts P (Some p) acc =
            Inr \<lparr> textContent = last_decoded P (textContent acc) (filter is_plain (visited_list children)),
                  htmlContent = last_decoded P (htmlContent acc) (filter is_html (visited_list children)) \<rparr>"
    using findParts_container_visited [of p children P acc] by blast
next
  assume "\<not> is_plain p \<and> \<not> is_html p \<and> parts p = Some (before @ Some c # after)
        \<and> is_plain c \<and> filter is_plain (visited_list after) = []"
  then show "findParts P (Some p) acc =
            Inr \<lparr> textContent = decoded P c,
                  htmlContent = last_decoded P (htmlContent acc)
                    (filter is_html (visited_list (before @ Some c # after))) \<rparr>"
    using findParts_plain_child [of p before c after P acc] by blast
next
  assume "\<not> is_plain p \<and> \<not> is_html p \<and> parts p = Some (before @ Some c # after)
        \<and> is_html c \<and> filter is_html (visited_list after) = []"
  then show "findParts P (Some p) acc =
            Inr \<lparr> textContent = last_decoded P (textContent acc)
                    (filter is_plain (visited_list (before @ Some c # after))),
                  htmlContent = decoded P c \<rparr>"
    using findParts_html_child [of p before c after P acc] by blast
next
  assume "\<not> is_plain p \<and> \<not> is_html p \<and> leaf p"
  then show "findParts P (Some p) acc = Inr acc"
    by (auto simp: findParts_container leaf_def split: option.splits)
next
  assume "is_plain p"
  then show "findParts P (Some p) acc = Inr (acc\<lparr>textContent := decoded P p\<rparr>)"
    by (rule findParts_plain)
next
  assume "is_html p"
  then show "findParts P (Some p) acc = Inr (acc\<lparr>htmlContent := decoded P p\<rparr>)"
    by (rule findParts_html)
next
  show "\<exists>acc'. findParts P po acc = Inr acc'"
    by (rule findParts_returns)
qed

theorem findParts_recursion_witness:
  "findParts browser
     (Some (Part (Some ''text/plain'') None
        (Some [Some (Part (Some ''text/html'') (Some (Body (Some ''Qg==''))) None None),
               None,
               Some (Part (Some ''text/plain'') (Some (Body (Some ''QQ==''))) None None),
               Some (Part (Some ''image/png'') (Some (Body (Some ''Qg==''))) None None)]) None))
     \<lparr> textContent = [], htmlContent = [] \<rparr>
    = Inr \<lparr> textContent = ''A'', htmlContent = ''B'' \<rparr>
   \<and> findParts browser (Some (Part (Some ''image/png'') (Some (Body (Some ''QQ==''))) None None))
     \<lparr> textContent = [], htmlContent = [] \<rparr>
    = Inr \<lparr> textContent = [], htmlContent = [] \<rparr>"
proof -
  let ?h = "Part (Some ''text/html'') (Some (Body (Some ''Qg==''))) None None"
  let ?c = "Part (Some ''text/plain'') (Some (Body (Some ''QQ==''))) None None"
  let ?q = "Part (Some ''image/png'') (Some (Body (Some ''Qg==''))) None None"
  let ?p = "Part (Some ''text/plain'') None (Some ([Some ?h, None] @ Some ?c # [Some ?q])) None"
  let ?l = "Part (Some ''image/png'') (Some (Body (Some ''QQ==''))) None None"
  let ?acc = "\<lparr> textContent = [], htmlContent = [] \<rparr>"
  have n: "\<not> is_plain ?p" "\<not> is_html ?p" "parts ?p = Some ([Some ?h, None] @ Some ?c # [Some ?q])"
    "is_plain ?c" "filter is_plain (visited_list [Some ?q]) = []"
    "\<not> is_plain ?l" "\<not> is_html ?l" "leaf ?l"
    by (simp_all add: is_plain_def is_html_def body_data_def truthy_def leaf_def)
  have f: "filter is_html (visited_list ([Some ?h, None] @ Some ?c # [Some ?q])) = [?h]"
    by (simp add: is_plain_def is_html_def body_data_def truthy_def)
  have d: "decoded browser ?c = ''A''" "decoded browser ?h = ''B''"
    by code_simp+
  have 1: "findParts browser (Some ?p) ?acc =
      Inr \<lparr> textContent = decoded browser ?c,
            htmlContent = last_decoded browser (htmlContent ?acc)
              (filter is_html (visited_list ([Some ?h, None] @ Some ?c # [Some ?q]))) \<rparr>"
    using findParts_recursion [of ?p "[Some ?h, None]" "Some ?c" "[Some ?q]" browser ?acc _ ?c] n(1-5)
    by blast
  have 2: "findParts browser (Some ?l) ?acc = Inr ?acc"
    using findParts_recursion [of ?l _ _ _ browser ?acc] n(6-8) by blast
  show ?thesis
    using 1 2 unfolding f by (simp add: d last_decoded_def)
qed

text \<open>
  A part of type \<^verbatim>\<open>text/plain\<close> with body data and with an HTML child: the child is
  not visited, although walking the children would find its content.
\<close>

theorem findParts_mixed_counterexample:
  "findParts browser
     (Some (Part (Some ''text/plain'') (Some (Body (Some ''QQ=='')))
        (Some [Some (Part (Some ''text/html'') (Some (Body (Some ''Qg==''))) None None)]) None))
     \<lparr> textContent = [], htmlContent = [] \<rparr>
    = Inr \<lparr> textContent = ''A'', htmlContent = [] \<rparr>
   \<and> findParts_forEach browser
        [Some (Part (Some ''text/html'') (Some (Body (Some ''Qg==''))) None None)]
        \<lparr> textContent = [], htmlContent = [] \<rparr>
    = Inr \<lparr> textContent = [], htmlContent = ''B'' \<rparr>"
  by code_simp

subsection \<open>Content decoder on plain text\<close>

lemma alnum_facts:
  assumes "alnum c"
  shows "base64_alphabet c" "\<not> ascii_whitespace c" "c \<noteq> CHR ''=''" "c \<noteq> CHR ''-''" "c \<noteq> CHR ''_''"
proof -
  have r: "(48 \<le> (of_char c :: nat) \<and> (of_char c :: nat) \<le> 57)
      \<or> (65 \<le> (of_char c :: nat) \<and> (of_char c :: nat) \<le> 90)
      \<or> (97 \<le> (of_char c :: nat) \<and> (of_char c :: nat) \<le> 122)"
    using assms by (auto simp: alnum_def is_upper_def is_lower_def is_digit_def)
  show "base64_alphabet c"
    using assms by (auto simp: alnum_def base64_alphabet_def)
  show "c \<noteq> CHR ''=''" "c \<noteq> CHR ''-''" "c \<noteq> CHR ''_''"
    using r by auto
  have "c \<noteq> CHR 0x09" "c \<noteq> CHR 0x0A" "c \<noteq> CHR 0x0C" "c \<noteq> CHR 0x0D" "c \<noteq> CHR 0x20"
    using r by auto
  then show "\<not> ascii_whitespace c"
    by (simp add: ascii_whitespace_def)
qed

lemma url_safe_to_base64_alnum:
  assumes "list_all alnum s"
  shows "url_safe_to_base64 s = s"
proof -
  have "\<forall>c\<in>set s. c \<noteq> CHR ''-'' \<and> c \<noteq> CHR ''_''"
    using assms alnum_facts(4,5) by (auto simp: list_all_iff)
  then have "map (\<lambda>c. if c = CHR ''-'' then CHR ''+'' else c) s = s"
    "map (\<lambda>c. if c = CHR ''_'' then CHR ''/'' else c) s = s"
    by (simp_all add: map_idI)
  then show ?thesis
    by (simp add: url_safe_to_base64_def)
qed

lemma strip_padding_alnum:
  assumes "list_all alnum d"
  shows "strip_padding d = d"
proof (cases "d = []")
  case True
  then show ?thesis by (simp add: strip_padding_def)
next
  case False
  then have "d ! (length d - 1) \<in> set d"
    by simp
  then have "d ! (length d - 1) \<noteq> CHR ''=''"
    using assms alnum_facts(3) by (auto simp: list_all_iff)
  then show ?thesis
    by (simp add: strip_padding_def)
qed

lemma atob_js_alnum:
  assumes "list_all alnum s"
  shows "atob_js (url_safe_to_base64 s) =
     (if length s mod 4 = 1 then Inl InvalidCharacterError
      else Inr (map char_of (sextets_to_bytes (map sextet s))))"
proof -
  have f: "filter (\<lambda>c. \<not> ascii_whitespace c) s = s"
    using assms alnum_facts(2) by (auto simp: list_all_iff filter_id_conv)
  have b: "list_all base64_alphabet s"
    using assms alnum_facts(1) by (auto simp: list_all_iff)
  show ?thesis
    by (simp add: atob_js_def url_safe_to_base64_alnum [OF assms] f strip_padding_alnum [OF assms] b)
qed

lemma length_sextets_to_bytes:
  "length (sextets_to_bytes xs) \<le> length xs"
  "2 \<le> length xs \<Longrightarrow> length (sextets_to_bytes xs) < length xs"
  by (induction xs rule: sextets_to_bytes.induct) auto

lemma length_strip_trailing_blank: "length (strip_trailing_blank s) \<le> length s"
  by (induction s) auto

lemma length_strip_soft_breaks: "length (strip_soft_breaks s) \<le> length s"
proof (induction s rule: length_induct)
  case (1 s)
  have ih: "length (strip_soft_breaks t) \<le> length t" if "length t < length s" for t
    using 1 that by blast
  show ?case
  proof (cases s)
    case Nil
    then show ?thesis by simp
  next
    case s: (Cons c cs)
    have cs: "length (strip_soft_breaks cs) \<le> length cs"
      using s by (intro ih) simp
    show ?thesis
    proof (cases "c = CHR ''=''")
      case False
      then show ?thesis using s cs by simp
    next
      case eq: True
      show ?thesis
      proof (cases cs)
        case Nil
        then show ?thesis using s eq by simp
      next
        case d: (Cons d ds)
        have ds: "length (strip_soft_breaks ds) \<le> length ds"
          using s d by (intro ih) simp
        show ?thesis
        proof (cases "d = CHR 0x0D")
          case cr: True
          show ?thesis
          proof (cases ds)
            case Nil
            then show ?thesis using s eq d cr by simp
          next
            case e: (Cons e es)
            have es: "length (strip_soft_breaks es) \<le> length es"
              using s d e by (intro ih) simp
            show ?thesis
            proof (cases "e = CHR 0x0A")
              case True
              then show ?thesis using s eq d cr e es by simp
            next
              case False
              have "strip_soft_breaks s = strip_soft_breaks ds"
                using s eq d cr e False by simp
              then show ?thesis using ds s d by simp
            qed
          qed
        next
          case ncr: False
          show ?thesis
          proof (cases "d = CHR 0x0A")
            case True
            have "strip_soft_breaks s = strip_soft_breaks ds"
              using s eq d ncr True by simp
            then show ?thesis using ds s d by simp
          next
            case False
            have "strip_soft_breaks s = c # strip_soft_breaks cs"
              using s eq d ncr False by simp
            then show ?thesis using cs s by simp
          qed
        qed
      qed
    qed
  qed
qed

lemma length_decode_escapes: "length (decode_escapes s) \<le> length s"
  by (induction s rule: decode_escapes.induct) auto

lemma length_qp_decode:
  "\<exists>r. qp_decode b = Inr r \<and> length r \<le> length b"
proof -
  have "length (decode_escapes (strip_soft_breaks (strip_trailing_blank b)))
      \<le> length (strip_soft_breaks (strip_trailing_blank b))"
    by (rule length_decode_escapes)
  also have "\<dots> \<le> length (strip_trailing_blank b)"
    by (rule length_strip_soft_breaks)
  also have "\<dots> \<le> length b"
    by (rule length_strip_trailing_blank)
  finally show ?thesis
    by (simp add: qp_decode_def)
qed

lemma decodeContent_alnum_rejected:
  assumes "list_all alnum s" "length s mod 4 = 1"
  shows "decodeContent browser (Some s) = Inr s"
proof -
  have "decodeContent_try browser s = Inl InvalidCharacterError"
    using assms by (simp add: decodeContent_try_def browser_def bind_err_def atob_js_alnum)
  then show ?thesis
    by (rule decodeContent_fallback)
qed

lemma decodeContent_alnum_decoded:
  assumes "list_all alnum s" "s \<noteq> []" "length s mod 4 \<noteq> 1"
  shows "\<exists>r. decodeContent browser (Some s) = Inr r \<and> length r < length s"
proof -
  let ?b = "map char_of (sextets_to_bytes (map sextet s)) :: string"
  have "length s \<noteq> 1"
    using assms(3) by auto
  then have "2 \<le> length s"
    using assms(2) by (cases s) (auto simp: Suc_le_eq)
  then have lb: "length ?b < length s"
    using length_sextets_to_bytes(2) [of "map sextet s"] by simp
  obtain r where r: "qp_decode ?b = Inr r" "length r \<le> length ?b"
    using length_qp_decode by blast
  have "decodeContent_try browser s = Inr r"
    using assms(1,3) r(1) by (simp add: decodeContent_try_def browser_def bind_err_def atob_js_alnum)
  then have "decodeContent browser (Some s) = Inr r"
    using assms(2) by (simp add: decodeContent_def)
  then show ?thesis
    using r(2) lb by auto
qed

text \<open>
  C4, as the code has it. The decoder always attempts the transport decoding. For text
  made of letters and digits only, that decoding rejects the text exactly when its
  length is 1 modulo 4, and then the text is returned unchanged; in every other case the
  text is decoded as base64 and the result is shorter than the text. So such text is
  returned unchanged exactly when it is empty or its length is 1 modulo 4.
\<close>

theorem decodeContent_plain_text:
  "(list_all alnum s \<and> length s mod 4 = 1 \<longrightarrow> decodeContent browser (Some s) = Inr s)
   \<and> (list_all alnum s \<and> s \<noteq> [] \<and> length s mod 4 \<noteq> 1
        \<longrightarrow> (\<exists>r. decodeContent browser (Some s) = Inr r \<and> length r < length s))
   \<and> (list_all alnum s
        \<longrightarrow> (decodeContent browser (Some s) = Inr s \<longleftrightarrow> s = [] \<or> length s mod 4 = 1))"
proof -
  have a: "list_all alnum s \<and> length s mod 4 = 1 \<longrightarrow> decodeContent browser (Some s) = Inr s"
    using decodeContent_alnum_rejected by blast
  have b: "list_all alnum s \<and> s \<noteq> [] \<and> length s mod 4 \<noteq> 1
        \<longrightarrow> (\<exists>r. decodeContent browser (Some s) = Inr r \<and> length r < length s)"
    using decodeContent_alnum_decoded by blast
  have e: "decodeContent browser (Some []) = Inr []"
    by (simp add: decodeContent_def)
  have c: "list_all alnum s
        \<longrightarrow> (decodeContent browser (Some s) = Inr s \<longleftrightarrow> s = [] \<or> length s mod 4 = 1)"
  proof (intro impI iffI)
    assume al: "list_all alnum s" and eq: "decodeContent browser (Some s) = Inr s"
    show "s = [] \<or> length s mod 4 = 1"
    proof (rule ccontr)
      assume "\<not> (s = [] \<or> length s mod 4 = 1)"
      then obtain r where "decodeContent browser (Some s) = Inr r" "length r < length s"
        using b al by blast
      with eq show False by simp
    qed
  next
    assume al: "list_all alnum s" and "s = [] \<or> length s mod 4 = 1"
    then show "decodeContent browser (Some s) = Inr s"
      using a e by blast
  qed
  from a b c show ?thesis by (intro conjI)
qed

theorem decodeContent_plain_text_witness:
  "list_all alnum ''Hello'' \<and> length ''Hello'' mod 4 = 1
   \<and> decodeContent browser (Some ''Hello'') = Inr ''Hello''
   \<and> list_all alnum ''Hi'' \<and> decodeContent browser (Some ''Hi'') \<noteq> Inr ''Hi''"
proof -
  have h: "list_all alnum ''Hello''" "length ''Hello'' mod 4 = 1"
    "list_all alnum ''Hi''" "''Hi'' \<noteq> []" "length ''Hi'' mod 4 \<noteq> 1"
    by code_simp+
  show ?thesis
    using h decodeContent_plain_text [of "''Hello''"] decodeContent_plain_text [of "''Hi''"]
    by blast
qed

text \<open>
  Plain text without any special character that happens to be valid base64 is decoded,
  not returned: \<^verbatim>\<open>abcd\<close> becomes the three bytes 0x69 0xB7 0x1D.
\<close>

theorem decodeContent_plain_text_counterexample:
  "decodeContent browser (Some ''abcd'') = Inr [CHR 0x69, CHR 0xB7, CHR 0x1D]
   \<and> decodeContent browser (Some ''abcd'') \<noteq> Inr ''abcd''"
  by code_simp

subsection \<open>The matcher and the link pattern\<close>

lemma lit_rest_Some_iff:
  "lit_rest p s = Some t \<longleftrightarrow> (\<exists>m. s = m @ t \<and> ci_eq p m)"
proof (induction p s rule: lit_rest.induct)
  case (1 s)
  then show ?case by (auto simp: ci_eq_def)
next
  case (2 p ps)
  then show ?case by (auto simp: ci_eq_def)
next
  case (3 p ps c cs)
  show ?case
  proof (cases "canonicalize c = canonicalize p")
    case True
    have "(\<exists>m. c # cs = m @ t \<and> ci_eq (p # ps) m) \<longleftrightarrow> (\<exists>m'. cs = m' @ t \<and> ci_eq ps m')"
    proof
      assume "\<exists>m. c # cs = m @ t \<and> ci_eq (p # ps) m"
      then obtain m where m: "c # cs = m @ t" "ci_eq (p # ps) m" by blast
      then obtain x m' where "m = x # m'" by (cases m) (auto simp: ci_eq_def)
      with m show "\<exists>m'. cs = m' @ t \<and> ci_eq ps m'" by (auto simp: ci_eq_def)
    next
      assume "\<exists>m'. cs = m' @ t \<and> ci_eq ps m'"
      then obtain m' where "cs = m' @ t" "ci_eq ps m'" by blast
      then have "c # cs = (c # m') @ t \<and> ci_eq (p # ps) (c # m')"
        using True by (simp add: ci_eq_def)
      then show "\<exists>m. c # cs = m @ t \<and> ci_eq (p # ps) m" by blast
    qed
    then show ?thesis using 3 True by simp
  next
    case False
    have "\<not> (\<exists>m. c # cs = m @ t \<and> ci_eq (p # ps) m)"
    proof
      assume "\<exists>m. c # cs = m @ t \<and> ci_eq (p # ps) m"
      then obtain m where m: "c # cs = m @ t" "ci_eq (p # ps) m" by blast
      then obtain x m' where "m = x # m'" by (cases m) (auto simp: ci_eq_def)
      with m False show False by (auto simp: ci_eq_def)
    qed
    then show ?thesis using False by simp
  qed
qed

lemma ci_eq_length: "ci_eq p m \<Longrightarrow> length m = length p"
  unfolding ci_eq_def by (metis length_map)

lemma lit_rest_append:
  assumes "ci_eq p m"
  shows "lit_rest p (m @ t) = Some t"
  using assms lit_rest_Some_iff by blast

lemma rem_Lit_append:
  assumes "ci_eq p m"
  shows "rem (Lit p) (m @ t) = [t]"
  by (simp add: lit_rest_append [OF assms])

lemma rem_Lit_cases:
  "rem (Lit p) s = [] \<or> (\<exists>m t. s = m @ t \<and> ci_eq p m \<and> rem (Lit p) s = [t])"
proof (cases "lit_rest p s")
  case None
  then show ?thesis by simp
next
  case (Some t)
  then show ?thesis using lit_rest_Some_iff [of p s t] by auto
qed

lemma canonicalize_lower_upper:
  assumes "is_lower c"
  shows "is_upper (canonicalize c)"
proof -
  have "97 \<le> (of_char c :: nat)" "(of_char c :: nat) \<le> 122"
    using assms by (simp_all add: is_lower_def)
  then have "((of_char c :: nat) - 32) mod 256 = of_char c - 32"
    "65 \<le> (of_char c :: nat) - 32" "(of_char c :: nat) - 32 \<le> 90"
    by simp_all
  then show ?thesis
    using assms by (simp add: canonicalize_def is_upper_def)
qed

lemma letter_url_char:
  assumes "is_upper c \<or> is_lower c"
  shows "url_char c"
proof -
  have r: "65 \<le> (of_char c :: nat)" "(of_char c :: nat) \<le> 122"
    using assms by (auto simp: is_upper_def is_lower_def)
  have "c \<noteq> char_of n" if "n < 65" for n :: nat
  proof
    assume "c = char_of n"
    then have "(of_char c :: nat) = n mod 256" by simp
    with that r show False by simp
  qed
  note ne = this
  have "c \<noteq> CHR 0xA0"
  proof
    assume "c = CHR 0xA0"
    then have "(of_char c :: nat) = 160" by simp
    with r show False by simp
  qed
  moreover have "c \<noteq> CHR 0x09" "c \<noteq> CHR 0x0A" "c \<noteq> CHR 0x0B" "c \<noteq> CHR 0x0C" "c \<noteq> CHR 0x0D"
    "c \<noteq> CHR 0x20" "c \<noteq> CHR ''<''" "c \<noteq> CHR ''>''" "c \<noteq> CHR 0x22"
    using r by auto
  ultimately show ?thesis
    by (simp add: url_char_def white_space_def)
qed

lemma upper_canonical_url_char:
  assumes "is_upper (canonicalize c)"
  shows "url_char c"
proof (cases "is_lower c")
  case True
  then show ?thesis by (simp add: letter_url_char)
next
  case False
  then have "canonicalize c = c" by (simp add: canonicalize_def)
  then show ?thesis using assms by (simp add: letter_url_char)
qed

lemma canonicalize_not_letter:
  assumes "\<not> is_upper d" "\<not> is_lower d"
  shows "canonicalize c = canonicalize d \<longleftrightarrow> c = d"
proof -
  have d: "canonicalize d = d" using assms by (simp add: canonicalize_def)
  show ?thesis
  proof (cases "is_lower c")
    case True
    then have "is_upper (canonicalize c)" by (rule canonicalize_lower_upper)
    then have "canonicalize c \<noteq> d" using assms by auto
    moreover have "c \<noteq> d" using True assms by auto
    ultimately show ?thesis using d by simp
  next
    case False
    then show ?thesis using d by (simp add: canonicalize_def)
  qed
qed

lemma class_items_url_char:
  "list_ex (item_matches c) [WhiteSpace, Ch CHR ''<'', Ch CHR ''>'', Ch CHR 0x22] \<longleftrightarrow> \<not> url_char c"
proof -
  have "\<not> is_upper CHR ''<''" "\<not> is_lower CHR ''<''" "\<not> is_upper CHR ''>''" "\<not> is_lower CHR ''>''"
    "\<not> is_upper CHR 0x22" "\<not> is_lower CHR 0x22"
    by (simp_all add: is_upper_def is_lower_def)
  then show ?thesis
    by (simp add: canonicalize_not_letter url_char_def)
qed

lemma keyword_url_chars:
  assumes "keyword k"
  shows "list_all url_char k"
proof -
  have u: "list_all (\<lambda>c. is_upper c) (map canonicalize ''verify'')"
    "list_all (\<lambda>c. is_upper c) (map canonicalize ''confirm'')"
    "list_all (\<lambda>c. is_upper c) (map canonicalize ''activate'')"
    by code_simp+
  from assms have "list_all (\<lambda>c. is_upper c) (map canonicalize k)"
    unfolding keyword_def ci_eq_def using u by auto
  then have "\<forall>c\<in>set k. is_upper (canonicalize c)"
    by (simp add: list_all_iff)
  then show ?thesis
    by (simp add: list_all_iff upper_canonical_url_char)
qed

lemma keyword_nonempty: "keyword k \<Longrightarrow> k \<noteq> []"
  by (auto simp: keyword_def ci_eq_def)

lemma rem_class:
  "rem url_class s = (case s of [] \<Rightarrow> [] | c # cs \<Rightarrow> if url_char c then [cs] else [])"
  using class_items_url_char by (cases s) auto

lemma upt_Suc_shift: "[0..<Suc n] = 0 # map Suc [0..<n]"
  by (simp add: upt_conv_Cons map_Suc_upt del: upt_Suc)

lemma drops_Cons:
  "map (\<lambda>k. drop k (c # cs)) (rev [0..<Suc (Suc n)])
     = map (\<lambda>k. drop k cs) (rev [0..<Suc n]) @ [c # cs]"
proof -
  have "map (\<lambda>k. drop k (c # cs)) (rev (0 # map Suc [0..<Suc n]))
      = map (\<lambda>k. drop k cs) (rev [0..<Suc n]) @ [c # cs]"
    by (simp add: rev_map comp_def del: upt_Suc)
  then show ?thesis
    by (simp only: upt_Suc_shift [of "Suc n", symmetric])
qed

lemma rem_Star_class:
  "rem (Star url_class) s = map (\<lambda>k. drop k s) (rev [0..<Suc (length (takeWhile url_char s))])"
proof (induction s)
  case Nil
  then show ?case by (simp add: rem_class del: rem.simps(2))
next
  case (Cons c cs)
  show ?case
  proof (cases "url_char c")
    case True
    have "rem (Star url_class) (c # cs) = rem (Star url_class) cs @ [c # cs]"
      using True by (subst rem.simps(6)) (simp add: rem_class del: rem.simps)
    also have "\<dots> = map (\<lambda>k. drop k cs) (rev [0..<Suc (length (takeWhile url_char cs))]) @ [c # cs]"
      using Cons.IH by simp
    also have "\<dots> = map (\<lambda>k. drop k (c # cs)) (rev [0..<Suc (Suc (length (takeWhile url_char cs)))])"
      by (rule drops_Cons [symmetric])
    finally show ?thesis using True by simp
  next
    case False
    have "rem (Star url_class) (c # cs) = [c # cs]"
      using False by (subst rem.simps(6)) (simp add: rem_class del: rem.simps)
    then show ?thesis using False by simp
  qed
qed

lemma rem_Star_class_hd:
  "rem (Star url_class) s \<noteq> []" "hd (rem (Star url_class) s) = dropWhile url_char s"
proof -
  let ?n = "length (takeWhile url_char s)"
  have "rev [0..<Suc ?n] = ?n # rev [0..<?n]" by simp
  then have "rem (Star url_class) s = drop ?n s # map (\<lambda>k. drop k s) (rev [0..<?n])"
    unfolding rem_Star_class by simp
  then show "rem (Star url_class) s \<noteq> []" "hd (rem (Star url_class) s) = dropWhile url_char s"
    by (simp_all add: dropWhile_eq_drop)
qed

lemma rem_Plus_class:
  "rem (Plus url_class) s = map (\<lambda>k. drop k s) (rev [1..<Suc (length (takeWhile url_char s))])"
proof (cases s)
  case Nil
  then show ?thesis by (simp add: Plus_def rem_class del: rem.simps(2,6))
next
  case (Cons c cs)
  show ?thesis
  proof (cases "url_char c")
    case True
    have "rem (Plus url_class) s = rem (Star url_class) cs"
      using True Cons by (simp add: Plus_def rem_class del: rem.simps(2,6))
    also have "\<dots> = map (\<lambda>k. drop k cs) (rev [0..<Suc (length (takeWhile url_char cs))])"
      by (rule rem_Star_class)
    also have "\<dots> = map (\<lambda>k. drop k (c # cs)) (rev (map Suc [0..<Suc (length (takeWhile url_char cs))]))"
      by (simp add: rev_map comp_def del: upt_Suc)
    also have "map Suc [0..<Suc (length (takeWhile url_char cs))] = [1..<Suc (Suc (length (takeWhile url_char cs)))]"
      by (simp add: map_Suc_upt del: upt_Suc)
    finally show ?thesis using True Cons by simp
  next
    case False
    then show ?thesis using Cons by (simp add: Plus_def rem_class del: rem.simps(2,6))
  qed
qed

lemma concat_map_Nil_iff: "concat (map f xs) = [] \<longleftrightarrow> (\<forall>x\<in>set xs. f x = [])"
  by (induction xs) auto

lemma hd_concat_map:
  assumes "\<forall>x\<in>set xs. f x \<noteq> [] \<longrightarrow> hd (f x) = c" "\<exists>x\<in>set xs. f x \<noteq> []"
  shows "hd (concat (map f xs)) = c"
  using assms
proof (induction xs)
  case Nil
  then show ?case by simp
next
  case (Cons x xs)
  show ?case
  proof (cases "f x = []")
    case True
    then show ?thesis using Cons by simp
  next
    case False
    then show ?thesis using Cons.prems(1) by simp
  qed
qed

lemma dropWhile_drop:
  "j \<le> length (takeWhile Q xs) \<Longrightarrow> dropWhile Q (drop j xs) = dropWhile Q xs"
proof (induction xs arbitrary: j)
  case Nil
  then show ?case by simp
next
  case (Cons x xs)
  then show ?case by (cases j) (auto split: if_splits)
qed

lemma rem_kw:
  "rem kw_regex t \<noteq> [] \<longleftrightarrow> keyword_prefix t"
  "x \<in> set (rem kw_regex t) \<Longrightarrow> \<exists>k. t = k @ x \<and> keyword k"
proof -
  have a: "rem (Lit p) t \<noteq> [] \<longleftrightarrow> (\<exists>k r. t = k @ r \<and> ci_eq p k)" for p
    using lit_rest_Some_iff [of p t] by (cases "lit_rest p t") auto
  show "rem kw_regex t \<noteq> [] \<longleftrightarrow> keyword_prefix t"
    unfolding keyword_prefix_def keyword_def rem.simps(4) append_is_Nil_conv de_Morgan_conj a
    by blast
  have b: "x \<in> set (rem (Lit p) t) \<Longrightarrow> \<exists>k. t = k @ x \<and> ci_eq p k" for p
    using lit_rest_Some_iff [of p t x] by (cases "lit_rest p t") auto
  show "x \<in> set (rem kw_regex t) \<Longrightarrow> \<exists>k. t = k @ x \<and> keyword k"
    unfolding keyword_def rem.simps(4) set_append Un_iff using b by blast
qed

lemma rem_tail:
  "rem tail_regex t \<noteq> [] \<longleftrightarrow> keyword_prefix t"
  "rem tail_regex t \<noteq> [] \<Longrightarrow> hd (rem tail_regex t) = dropWhile url_char t"
proof -
  have eq: "rem tail_regex t = concat (map (rem (Star url_class)) (rem kw_regex t))"
    by (rule rem.simps(3))
  have ne: "rem tail_regex t \<noteq> [] \<longleftrightarrow> rem kw_regex t \<noteq> []"
    unfolding eq concat_map_Nil_iff using rem_Star_class_hd(1) by (cases "rem kw_regex t") auto
  then show "rem tail_regex t \<noteq> [] \<longleftrightarrow> keyword_prefix t"
    using rem_kw(1) by simp
  assume "rem tail_regex t \<noteq> []"
  then have k: "rem kw_regex t \<noteq> []" using ne by simp
  have "hd (rem (Star url_class) x) = dropWhile url_char t" if "x \<in> set (rem kw_regex t)" for x
  proof -
    from rem_kw(2) [OF that] obtain k where k: "t = k @ x" "keyword k" by blast
    then have "\<forall>c\<in>set k. url_char c"
      using keyword_url_chars [of k] by (simp add: list_all_iff)
    then have "dropWhile url_char t = dropWhile url_char x"
      using k(1) by (simp add: dropWhile_append)
    then show ?thesis by (simp add: rem_Star_class_hd(2) del: rem.simps)
  qed
  moreover have "\<exists>x\<in>set (rem kw_regex t). rem (Star url_class) x \<noteq> []"
    using k rem_Star_class_hd(1) by (cases "rem kw_regex t") auto
  ultimately show "hd (rem tail_regex t) = dropWhile url_char t"
    unfolding eq by (intro hd_concat_map) auto
qed

lemma rem_body:
  "rem body_regex b \<noteq> [] \<longleftrightarrow>
     (\<exists>j. 1 \<le> j \<and> j \<le> length (takeWhile url_char b) \<and> keyword_prefix (drop j b))"
  "rem body_regex b \<noteq> [] \<Longrightarrow> hd (rem body_regex b) = dropWhile url_char b"
proof -
  let ?n = "length (takeWhile url_char b)"
  have eq: "rem body_regex b = concat (map (\<lambda>j. rem tail_regex (drop j b)) (rev [1..<Suc ?n]))"
    unfolding rem.simps(3) [of "Plus url_class"] rem_Plus_class by (simp add: comp_def del: rem.simps upt_Suc)
  have s: "set (rev [1..<Suc ?n]) = {j. 1 \<le> j \<and> j \<le> ?n}"
    by auto
  show ne: "rem body_regex b \<noteq> [] \<longleftrightarrow> (\<exists>j. 1 \<le> j \<and> j \<le> ?n \<and> keyword_prefix (drop j b))"
    unfolding eq concat_map_Nil_iff s using rem_tail(1) by blast
  assume "rem body_regex b \<noteq> []"
  then have ex: "\<exists>j\<in>set (rev [1..<Suc ?n]). rem tail_regex (drop j b) \<noteq> []"
    unfolding eq concat_map_Nil_iff by blast
  have "\<forall>j\<in>set (rev [1..<Suc ?n]). rem tail_regex (drop j b) \<noteq> []
      \<longrightarrow> hd (rem tail_regex (drop j b)) = dropWhile url_char b"
    unfolding s using rem_tail(2) dropWhile_drop [of _ url_char b] by auto
  then show "hd (rem body_regex b) = dropWhile url_char b"
    unfolding eq using ex by (rule hd_concat_map)
qed

declare rem.simps [simp del]

lemma ci_eq_append:
  "ci_eq p m \<Longrightarrow> ci_eq q n \<Longrightarrow> ci_eq (p @ q) (m @ n)"
  by (simp add: ci_eq_def)

lemma ci_eq_split:
  assumes "ci_eq (p @ q) m"
  shows "\<exists>m1 m2. m = m1 @ m2 \<and> ci_eq p m1 \<and> ci_eq q m2"
proof -
  have "map canonicalize m = map canonicalize p @ map canonicalize q"
    using assms by (simp add: ci_eq_def)
  then have "map canonicalize (take (length p) m) = map canonicalize p"
    "map canonicalize (drop (length p) m) = map canonicalize q"
    by (simp_all add: take_map [symmetric] drop_map [symmetric])
  then have "m = take (length p) m @ drop (length p) m \<and> ci_eq p (take (length p) m)
      \<and> ci_eq q (drop (length p) m)"
    by (simp add: ci_eq_def)
  then show ?thesis by blast
qed

lemma sep_not_s:
  assumes "ci_eq ''://'' sep"
  shows "rem (Lit ''s'') (sep @ b) = []"
proof -
  have ne: "canonicalize CHR '':'' \<noteq> canonicalize CHR ''s''" by code_simp
  from assms obtain x xs where "sep = x # xs" "canonicalize x = canonicalize CHR '':''"
    by (cases sep) (auto simp: ci_eq_def)
  then show ?thesis using ne by (simp add: rem.simps)
qed

lemma s_not_sep:
  assumes "ci_eq ''s'' s1"
  shows "rem (Lit ''://'') (s1 @ b) = []"
proof -
  have ne: "canonicalize CHR ''s'' \<noteq> canonicalize CHR '':''" by code_simp
  from assms obtain x xs where "s1 = x # xs" "canonicalize x = canonicalize CHR ''s''"
    by (cases s1) (auto simp: ci_eq_def)
  then show ?thesis using ne by (simp add: rem.simps)
qed

lemma urlRegex_unfold:
  "rem urlRegex s =
     concat (map (\<lambda>t. concat (map (\<lambda>u. concat (map (rem body_regex) (rem (Lit ''://'') u)))
                                 (rem (Lit ''s'') t @ [t])))
                 (rem (Lit ''http'') s))"
  unfolding urlRegex_def rem.simps(3) [of "Lit ''http''"] rem.simps(3) [of "Opt (Lit ''s'')"]
    rem.simps(3) [of "Lit ''://''"] rem.simps(5)
  by (simp add: comp_def del: rem.simps)

lemma rem_urlRegex_http:
  assumes "ci_eq ''http'' h4" "ci_eq ''://'' sep"
  shows "rem urlRegex (h4 @ sep @ b) = rem body_regex b"
  unfolding urlRegex_unfold rem_Lit_append [OF assms(1)] 
  by (simp add: sep_not_s [OF assms(2)] rem_Lit_append [OF assms(2)] del: rem.simps)

lemma rem_urlRegex_https:
  assumes "ci_eq ''http'' h4" "ci_eq ''s'' s1" "ci_eq ''://'' sep"
  shows "rem urlRegex (h4 @ s1 @ sep @ b) = rem body_regex b"
  unfolding urlRegex_unfold rem_Lit_append [OF assms(1)]
  by (simp add: rem_Lit_append [OF assms(2)] rem_Lit_append [OF assms(3)]
      s_not_sep [OF assms(2)] del: rem.simps)

lemma rem_urlRegex_scheme:
  assumes "scheme_sep h"
  shows "rem urlRegex (h @ b) = rem body_regex b"
proof -
  from assms consider "ci_eq (''http'' @ ''://'') h" | "ci_eq (''http'' @ ''s'' @ ''://'') h"
    by (auto simp: scheme_sep_def)
  then show ?thesis
  proof cases
    case 1
    from ci_eq_split [OF 1] obtain h4 sep where "h = h4 @ sep" "ci_eq ''http'' h4" "ci_eq ''://'' sep"
      by blast
    then show ?thesis using rem_urlRegex_http [of h4 sep b] by simp
  next
    case 2
    from ci_eq_split [OF 2] obtain h4 r where h: "h = h4 @ r" "ci_eq ''http'' h4" "ci_eq (''s'' @ ''://'') r"
      by blast
    from ci_eq_split [OF h(3)] obtain s1 sep where "r = s1 @ sep" "ci_eq ''s'' s1" "ci_eq ''://'' sep"
      by blast
    then show ?thesis using h rem_urlRegex_https [of h4 s1 sep b] by simp
  qed
qed

lemma rem_urlRegex_nonempty:
  assumes "rem urlRegex s \<noteq> []"
  shows "\<exists>h b. s = h @ b \<and> scheme_sep h"
proof -
  have "rem (Lit ''http'') s \<noteq> []"
    using assms unfolding urlRegex_unfold by auto
  with rem_Lit_cases [of "''http''" s]
  obtain h4 t where t: "s = h4 @ t" "ci_eq ''http'' h4" "rem (Lit ''http'') s = [t]"
    by blast
  have ne: "concat (map (\<lambda>u. concat (map (rem body_regex) (rem (Lit ''://'') u))) (rem (Lit ''s'') t @ [t])) \<noteq> []"
    using assms unfolding urlRegex_unfold t(3) by simp
  then obtain u where u: "u \<in> set (rem (Lit ''s'') t @ [t])" "rem (Lit ''://'') u \<noteq> []"
    unfolding concat_map_Nil_iff by fastforce
  from u(2) rem_Lit_cases [of "''://''" u]
  obtain sep b where b: "u = sep @ b" "ci_eq ''://'' sep" by blast
  show ?thesis
  proof (cases "u = t")
    case True
    have "ci_eq (''http'' @ ''://'') (h4 @ sep)"
      using t(2) b(2) by (rule ci_eq_append)
    then have "scheme_sep (h4 @ sep)" by (simp add: scheme_sep_def)
    then show ?thesis using t(1) b(1) True by (intro exI [of _ "h4 @ sep"] exI [of _ b]) simp
  next
    case False
    then have "u \<in> set (rem (Lit ''s'') t)" using u(1) by simp
    with rem_Lit_cases [of "''s''" t]
    obtain s1 where s1: "t = s1 @ u" "ci_eq ''s'' s1" by force
    have "ci_eq (''http'' @ ''s'' @ ''://'') (h4 @ s1 @ sep)"
      using t(2) s1(2) b(2) by (intro ci_eq_append)
    then have "scheme_sep (h4 @ s1 @ sep)" by (simp add: scheme_sep_def)
    then show ?thesis using t(1) s1(1) b(1)
      by (intro exI [of _ "h4 @ s1 @ sep"] exI [of _ b]) simp
  qed
qed

lemma match_at_urlRegex:
  assumes "scheme_sep h"
  shows "match_at urlRegex (h @ b) =
     (if \<exists>j. 1 \<le> j \<and> j \<le> length (takeWhile url_char b) \<and> keyword_prefix (drop j b)
      then Some (h @ takeWhile url_char b) else None)"
proof -
  define ex where "ex \<longleftrightarrow> (\<exists>j. 1 \<le> j \<and> j \<le> length (takeWhile url_char b) \<and> keyword_prefix (drop j b))"
  have r: "rem urlRegex (h @ b) = rem body_regex b"
    using assms by (rule rem_urlRegex_scheme)
  have ne: "rem body_regex b \<noteq> [] \<longleftrightarrow> ex"
    unfolding ex_def by (rule rem_body(1))
  have "match_at urlRegex (h @ b) = (if ex then Some (h @ takeWhile url_char b) else None)"
  proof (cases "rem body_regex b")
    case Nil
    then have "\<not> ex" using ne by simp
    then show ?thesis
      unfolding match_at_def r Nil by simp
  next
    case (Cons t ts)
    then have e: "ex" using ne by simp
    have "hd (rem body_regex b) = dropWhile url_char b"
      using Cons by (intro rem_body(2)) simp
    then have t: "t = dropWhile url_char b"
      unfolding Cons by simp
    have "length (takeWhile url_char b) + length (dropWhile url_char b) = length b"
      by (metis length_append takeWhile_dropWhile_id)
    then have "length (h @ b) - length t = length h + length (takeWhile url_char b)"
      unfolding t by simp
    then have "take (length (h @ b) - length t) (h @ b)
        = take (length h + length (takeWhile url_char b)) (h @ b)"
      by (rule arg_cong)
    also have "\<dots> = h @ take (length (takeWhile url_char b)) b"
      by simp
    also have "take (length (takeWhile url_char b)) b = takeWhile url_char b"
      by (rule takeWhile_eq_take [symmetric])
    finally have "take (length (h @ b) - length t) (h @ b) = h @ takeWhile url_char b" .
    then show ?thesis
      unfolding match_at_def r Cons using e by simp
  qed
  then show ?thesis
    unfolding ex_def .
qed

lemma match_at_urlRegex_complete:
  assumes "scheme_sep h" "u \<noteq> []" "keyword k" "list_all url_char (u @ k @ v)"
    "rest = [] \<or> \<not> url_char (hd rest)"
  shows "match_at urlRegex (h @ u @ k @ v @ rest) = Some (h @ u @ k @ v)"
proof -
  let ?b = "u @ k @ v @ rest"
  have tw: "takeWhile url_char ?b = u @ k @ v"
  proof -
    have "takeWhile url_char rest = []"
      using assms(5) by (cases rest) auto
    moreover have "\<forall>c\<in>set (u @ k @ v). url_char c"
      using assms(4) by (simp add: list_all_iff)
    ultimately have "takeWhile url_char ((u @ k @ v) @ rest) = u @ k @ v"
      by (simp add: takeWhile_append del: append_assoc)
    then show ?thesis by simp
  qed
  have "1 \<le> length u \<and> length u \<le> length (takeWhile url_char ?b) \<and> keyword_prefix (drop (length u) ?b)"
    using assms(2,3) unfolding tw by (cases u) (auto simp: keyword_prefix_def)
  then have "\<exists>j. 1 \<le> j \<and> j \<le> length (takeWhile url_char ?b) \<and> keyword_prefix (drop j ?b)"
    by blast
  then show ?thesis
    using match_at_urlRegex [OF assms(1), of ?b] tw by simp
qed

lemma take_within_run:
  assumes "j \<le> length (takeWhile Q xs)"
  shows "\<forall>c\<in>set (take j xs). Q c"
proof
  fix c
  assume c: "c \<in> set (take j xs)"
  have "take j xs = take j (takeWhile Q xs @ dropWhile Q xs)"
    by simp
  also have "\<dots> = take j (takeWhile Q xs)"
    using assms by (simp del: takeWhile_dropWhile_id)
  finally have "c \<in> set (take j (takeWhile Q xs))"
    using c by simp
  then have "c \<in> set (takeWhile Q xs)"
    by (rule in_set_takeD)
  then show "Q c"
    by (rule set_takeWhileD [THEN conjunct2])
qed

lemma match_at_urlRegex_sound:
  assumes "match_at urlRegex s = Some m"
  shows "\<exists>h u k v rest. s = m @ rest \<and> m = h @ u @ k @ v \<and> scheme_sep h \<and> u \<noteq> [] \<and> keyword k
      \<and> list_all url_char (u @ k @ v) \<and> (rest = [] \<or> \<not> url_char (hd rest))"
proof -
  from assms have "rem urlRegex s \<noteq> []"
    by (auto simp: match_at_def split: list.splits)
  from rem_urlRegex_nonempty [OF this] obtain h b where hb: "s = h @ b" "scheme_sep h" by blast
  let ?n = "length (takeWhile url_char b)"
  have m_eq: "match_at urlRegex (h @ b) = Some m"
    using assms hb(1) by simp
  define ex where "ex \<longleftrightarrow> (\<exists>j. 1 \<le> j \<and> j \<le> ?n \<and> keyword_prefix (drop j b))"
  have mu: "match_at urlRegex (h @ b) = (if ex then Some (h @ takeWhile url_char b) else None)"
    unfolding ex_def using hb(2) by (rule match_at_urlRegex)
  have ex: "ex"
    using m_eq mu by (cases ex) simp_all
  then have m: "m = h @ takeWhile url_char b"
    using m_eq mu by simp
  from ex obtain j where j: "1 \<le> j" "j \<le> ?n" "keyword_prefix (drop j b)"
    unfolding ex_def by blast
  from j(3) obtain k r where k: "drop j b = k @ r" "keyword k"
    unfolding keyword_prefix_def by blast
  define u where "u = take j b"
  have "b = take j b @ drop j b"
    by simp
  then have b: "b = u @ k @ r"
    unfolding k(1) u_def .
  have lu: "length u = j"
    using j(2) length_takeWhile_le [of url_char b] by (simp add: u_def)
  have uc: "\<forall>c\<in>set u. url_char c"
    unfolding u_def using j(2) by (rule take_within_run)
  have kc: "\<forall>c\<in>set k. url_char c"
    using keyword_url_chars [OF k(2)] by (simp add: list_all_iff)
  have tw: "takeWhile url_char b = u @ k @ takeWhile url_char r"
    unfolding b using uc kc by (simp add: takeWhile_append)
  define v where "v = takeWhile url_char r"
  define rest where "rest = dropWhile url_char r"
  have 1: "s = m @ rest"
    unfolding hb(1) m tw rest_def by (simp add: b)
  have 2: "m = h @ u @ k @ v"
    by (simp add: m tw v_def)
  have 3: "u \<noteq> []"
    using lu j(1) by auto
  have 4: "list_all url_char (u @ k @ v)"
    using uc kc by (auto simp: list_all_iff v_def dest: set_takeWhileD)
  have 5: "rest = [] \<or> \<not> url_char (hd rest)"
    unfolding rest_def using hd_dropWhile [of url_char r] by blast
  show ?thesis
  proof (intro exI conjI)
    show "s = m @ rest" by (rule 1)
    show "m = h @ u @ k @ v" by (rule 2)
    show "scheme_sep h" by (rule hb(2))
    show "u \<noteq> []" by (rule 3)
    show "keyword k" by (rule k(2))
    show "list_all url_char (u @ k @ v)" by (rule 4)
    show "rest = [] \<or> \<not> url_char (hd rest)" by (rule 5)
  qed
qed

lemma scan_Nil_iff:
  "scan r 0 s = [] \<longleftrightarrow> (\<forall>i\<le>length s. match_at r (drop i s) = None)"
proof (induction s)
  case Nil
  then show ?case by (simp split: option.splits)
next
  case (Cons c cs)
  have split: "(\<forall>i\<le>length (c # cs). match_at r (drop i (c # cs)) = None)
      \<longleftrightarrow> match_at r (c # cs) = None \<and> (\<forall>i\<le>length cs. match_at r (drop i cs) = None)"
  proof
    assume a: "\<forall>i\<le>length (c # cs). match_at r (drop i (c # cs)) = None"
    have "match_at r (drop 0 (c # cs)) = None" using a by blast
    moreover have "match_at r (drop i cs) = None" if "i \<le> length cs" for i
      using a [rule_format, of "Suc i"] that by simp
    ultimately show "match_at r (c # cs) = None \<and> (\<forall>i\<le>length cs. match_at r (drop i cs) = None)"
      by simp
  next
    assume a: "match_at r (c # cs) = None \<and> (\<forall>i\<le>length cs. match_at r (drop i cs) = None)"
    show "\<forall>i\<le>length (c # cs). match_at r (drop i (c # cs)) = None"
    proof (intro allI impI)
      fix i assume "i \<le> length (c # cs)"
      then show "match_at r (drop i (c # cs)) = None"
        using a by (cases i) simp_all
    qed
  qed
  show ?case
    unfolding split using Cons.IH by (cases "match_at r (c # cs)") simp_all
qed

lemma scan_hd:
  assumes "scan r 0 s = m # ms"
  shows "\<exists>i\<le>length s. match_at r (drop i s) = Some m \<and> (\<forall>j<i. match_at r (drop j s) = None)"
  using assms
proof (induction s)
  case Nil
  then show ?case by (simp split: option.splits)
next
  case (Cons c cs)
  show ?case
  proof (cases "match_at r (c # cs)")
    case None
    then have "scan r 0 cs = m # ms" using Cons.prems by simp
    from Cons.IH [OF this] obtain i where i: "i \<le> length cs" "match_at r (drop i cs) = Some m"
      "\<forall>j<i. match_at r (drop j cs) = None" by blast
    have "match_at r (drop j (c # cs)) = None" if "j < Suc i" for j
      using that None i(3) by (cases j) simp_all
    then show ?thesis
      using i(1,2) by (intro exI [of _ "Suc i"]) simp
  next
    case (Some m')
    then have "m' = m" using Cons.prems by simp
    then show ?thesis using Some by (intro exI [of _ 0]) simp
  qed
qed

lemma leftmost_unique:
  assumes "match_at r (drop i s) = Some m" "\<forall>j<i. match_at r (drop j s) = None"
    and "match_at r (drop i' s) = Some m'" "\<forall>j<i'. match_at r (drop j s) = None"
  shows "m = m'"
proof -
  have "\<not> i < i'" using assms(1,4) by auto
  moreover have "\<not> i' < i" using assms(2,3) by auto
  ultimately have "i = i'" by simp
  then show ?thesis using assms(1,3) by simp
qed

lemma or_else_search_text:
  "or_else (or_else (textContent c) (htmlContent c)) [] = search_text c"
  by (simp add: or_else_def search_text_def)

lemma extractVerifyUrl_scan:
  assumes "extractEmailContent P (payload e) = Inr c"
  shows "extractVerifyUrl P (Some e) =
     Inr (case scan urlRegex 0 (search_text c) of [] \<Rightarrow> None | m # ms \<Rightarrow> Some m)"
  using assms
  by (simp add: extractVerifyUrl_def Let_def or_else_search_text string_match_def split: list.splits)

lemma extractEmailContent_returns: "\<exists>c. extractEmailContent P pl = Inr c"
  by (simp add: extractEmailContent_visited)

lemma extractVerifyUrl_leftmost:
  assumes "extractEmailContent P (payload e) = Inr c"
  shows "extractVerifyUrl P (Some e) = Inr None
      \<longleftrightarrow> (\<forall>i\<le>length (search_text c). match_at urlRegex (drop i (search_text c)) = None)"
    and "extractVerifyUrl P (Some e) = Inr (Some m)
      \<longleftrightarrow> (\<exists>i\<le>length (search_text c). match_at urlRegex (drop i (search_text c)) = Some m
            \<and> (\<forall>j<i. match_at urlRegex (drop j (search_text c)) = None))"
proof -
  let ?t = "search_text c"
  note ev = extractVerifyUrl_scan [OF assms]
  show "extractVerifyUrl P (Some e) = Inr None
      \<longleftrightarrow> (\<forall>i\<le>length ?t. match_at urlRegex (drop i ?t) = None)"
    unfolding ev scan_Nil_iff [symmetric] by (cases "scan urlRegex 0 ?t") simp_all
  show "extractVerifyUrl P (Some e) = Inr (Some m)
      \<longleftrightarrow> (\<exists>i\<le>length ?t. match_at urlRegex (drop i ?t) = Some m
            \<and> (\<forall>j<i. match_at urlRegex (drop j ?t) = None))"
  proof
    assume "extractVerifyUrl P (Some e) = Inr (Some m)"
    then obtain ms where "scan urlRegex 0 ?t = m # ms"
      unfolding ev by (cases "scan urlRegex 0 ?t") simp_all
    then show "\<exists>i\<le>length ?t. match_at urlRegex (drop i ?t) = Some m
            \<and> (\<forall>j<i. match_at urlRegex (drop j ?t) = None)"
      by (rule scan_hd)
  next
    assume "\<exists>i\<le>length ?t. match_at urlRegex (drop i ?t) = Some m
            \<and> (\<forall>j<i. match_at urlRegex (drop j ?t) = None)"
    then obtain i where i: "i \<le> length ?t" "match_at urlRegex (drop i ?t) = Some m"
      "\<forall>j<i. match_at urlRegex (drop j ?t) = None" by blast
    then have "scan urlRegex 0 ?t \<noteq> []"
      unfolding scan_Nil_iff by auto
    then obtain m' ms where s: "scan urlRegex 0 ?t = m' # ms"
      by (cases "scan urlRegex 0 ?t") simp_all
    from scan_hd [OF this] obtain i' where "match_at urlRegex (drop i' ?t) = Some m'"
      "\<forall>j<i'. match_at urlRegex (drop j ?t) = None" by blast
    with i(2,3) have "m = m'" by (rule leftmost_unique)
    then show "extractVerifyUrl P (Some e) = Inr (Some m)"
      unfolding ev s by simp
  qed
qed

subsection \<open>Verification link locator\<close>

lemma string_match_at_start:
  assumes "match_at r s = Some m" "s \<noteq> []"
  shows "\<exists>ms. string_match s r = Some (m # ms)"
  using assms by (cases s) (simp_all add: string_match_def)

text \<open>
  C5, as the code has it. At a position where the text reads an \<^verbatim>\<open>http://\<close> or
  \<^verbatim>\<open>https://\<close> (in any case), the pattern matches exactly when the run of
  non-whitespace, non-angle-bracket, non-quote characters that follows contains one of
  the keywords (in any case) after at least one other character of the run; the match
  is the scheme with the whole run. A keyword right after the separator does not count:
  \<^verbatim>\<open>http://verify.example.com\<close> is not matched.
\<close>

theorem urlRegex_matches_run:
  "(scheme_sep h \<and> u \<noteq> [] \<and> keyword k \<and> list_all url_char (u @ k @ v)
      \<and> (rest = [] \<or> \<not> url_char (hd rest))
      \<longrightarrow> match_at urlRegex (h @ u @ k @ v @ rest) = Some (h @ u @ k @ v)
          \<and> (\<exists>ms. string_match (h @ u @ k @ v @ rest) urlRegex = Some ((h @ u @ k @ v) # ms)))
   \<and> (match_at urlRegex s = Some m
      \<longrightarrow> (\<exists>h u k v rest. s = m @ rest \<and> m = h @ u @ k @ v \<and> scheme_sep h \<and> u \<noteq> [] \<and> keyword k
            \<and> list_all url_char (u @ k @ v) \<and> (rest = [] \<or> \<not> url_char (hd rest))))
   \<and> string_match ''http://verify.example.com'' urlRegex = None
   \<and> string_match ''http://verify.example.com/verify'' urlRegex
        = Some [''http://verify.example.com/verify'']"
proof -
  have a: "scheme_sep h \<and> u \<noteq> [] \<and> keyword k \<and> list_all url_char (u @ k @ v)
      \<and> (rest = [] \<or> \<not> url_char (hd rest))
      \<longrightarrow> match_at urlRegex (h @ u @ k @ v @ rest) = Some (h @ u @ k @ v)
          \<and> (\<exists>ms. string_match (h @ u @ k @ v @ rest) urlRegex = Some ((h @ u @ k @ v) # ms))"
  proof (intro impI, elim conjE)
    assume h: "scheme_sep h" "u \<noteq> []" "keyword k" "list_all url_char (u @ k @ v)"
      "rest = [] \<or> \<not> url_char (hd rest)"
    then have m: "match_at urlRegex (h @ u @ k @ v @ rest) = Some (h @ u @ k @ v)"
      by (rule match_at_urlRegex_complete)
    moreover have "h @ u @ k @ v @ rest \<noteq> []"
      using h(2) by simp
    ultimately have "\<exists>ms. string_match (h @ u @ k @ v @ rest) urlRegex = Some ((h @ u @ k @ v) # ms)"
      by (rule string_match_at_start)
    with m show "match_at urlRegex (h @ u @ k @ v @ rest) = Some (h @ u @ k @ v)
          \<and> (\<exists>ms. string_match (h @ u @ k @ v @ rest) urlRegex = Some ((h @ u @ k @ v) # ms))"
      by simp
  qed
  have b: "match_at urlRegex s = Some m
      \<longrightarrow> (\<exists>h u k v rest. s = m @ rest \<and> m = h @ u @ k @ v \<and> scheme_sep h \<and> u \<noteq> [] \<and> keyword k
            \<and> list_all url_char (u @ k @ v) \<and> (rest = [] \<or> \<not> url_char (hd rest)))"
    using match_at_urlRegex_sound [of s m] by blast
  have c: "string_match ''http://verify.example.com'' urlRegex = None"
    by code_simp
  have d: "string_match ''http://verify.example.com/verify'' urlRegex
        = Some [''http://verify.example.com/verify'']"
    by code_simp
  from a b c d show ?thesis by (intro conjI)
qed

theorem urlRegex_matches_run_witness:
  "match_at urlRegex ''HTTPS://x.test/Verify?tok=1 now'' = Some ''HTTPS://x.test/Verify?tok=1''"
proof -
  have "scheme_sep ''HTTPS://''" "''x.test/'' \<noteq> []" "keyword ''Verify''"
    "list_all url_char (''x.test/'' @ ''Verify'' @ ''?tok=1'')"
    "'' now'' = [] \<or> \<not> url_char (hd '' now'')"
    by code_simp+
  then show ?thesis
    using urlRegex_matches_run [of "''HTTPS://''" "''x.test/''" "''Verify''" "''?tok=1''" "'' now''"]
    by simp
qed

text \<open>
  A message whose plain text is \<^verbatim>\<open>http://verify.example.com\<close>: the keyword comes
  right after the scheme separator, and no link is found.
\<close>

theorem extractVerifyUrl_keyword_first_counterexample:
  "decodeContent browser (Some ''aHR0cDovL3ZlcmlmeS5leGFtcGxlLmNvbQ=='') = Inr ''http://verify.example.com''
   \<and> extractVerifyUrl browser
       (Some \<lparr> msg_id = JStr ''m1'', snippet = JStr '''',
               payload = Some (Part (Some ''text/plain'')
                  (Some (Body (Some ''aHR0cDovL3ZlcmlmeS5leGFtcGxlLmNvbQ==''))) None None),
               msg_verificationStatus = JStr ''pending'' \<rparr>)
     = Inr None"
  by code_simp

text \<open>
  C6. \<^verbatim>\<open>extractVerifyUrl\<close> returns absence for an absent message. Otherwise the text
  searched is the plain text if it is non-empty, else the HTML, else the empty string;
  the result is absent exactly when the pattern matches at no position of that text,
  and it is \<open>m\<close> exactly when \<open>m\<close> is the match at the least position at which the
  pattern matches. The text \<^verbatim>\<open>click http://x.test/verify?tok=1 now\<close> yields
  \<^verbatim>\<open>http://x.test/verify?tok=1\<close>; of two candidate links the earlier one is returned.
\<close>

theorem extractVerifyUrl_first_match:
  "extractVerifyUrl P None = Inr None
   \<and> (\<exists>c. extractEmailContent P (payload e) = Inr c
        \<and> (extractVerifyUrl P (Some e) = Inr None
             \<longleftrightarrow> (\<forall>i\<le>length (search_text c). match_at urlRegex (drop i (search_text c)) = None))
        \<and> (\<forall>m. extractVerifyUrl P (Some e) = Inr (Some m)
             \<longleftrightarrow> (\<exists>i\<le>length (search_text c).
                    match_at urlRegex (drop i (search_text c)) = Some m
                    \<and> (\<forall>j<i. match_at urlRegex (drop j (search_text c)) = None))))
   \<and> string_match ''click http://x.test/verify?tok=1 now'' urlRegex = Some [''http://x.test/verify?tok=1'']
   \<and> string_match ''nothing to see at http://x.test/ here'' urlRegex = None
   \<and> map_option hd (string_match ''first https://b.test/confirm/1 then http://c.test/activate'' urlRegex)
        = Some ''https://b.test/confirm/1''"
proof -
  have a: "extractVerifyUrl P None = Inr None"
    by (simp add: extractVerifyUrl_def)
  obtain c where c: "extractEmailContent P (payload e) = Inr c"
    using extractEmailContent_returns by blast
  have b: "\<exists>c. extractEmailContent P (payload e) = Inr c
        \<and> (extractVerifyUrl P (Some e) = Inr None
             \<longleftrightarrow> (\<forall>i\<le>length (search_text c). match_at urlRegex (drop i (search_text c)) = None))
        \<and> (\<forall>m. extractVerifyUrl P (Some e) = Inr (Some m)
             \<longleftrightarrow> (\<exists>i\<le>length (search_text c).
                    match_at urlRegex (drop i (search_text c)) = Some m
                    \<and> (\<forall>j<i. match_at urlRegex (drop j (search_text c)) = None)))"
    using c extractVerifyUrl_leftmost [OF c] by (intro exI [of _ c]) simp
  have x1: "string_match ''click http://x.test/verify?tok=1 now'' urlRegex = Some [''http://x.test/verify?tok=1'']"
    by code_simp
  have x2: "string_match ''nothing to see at http://x.test/ here'' urlRegex = None"
    by code_simp
  have x3: "map_option hd (string_match ''first https://b.test/confirm/1 then http://c.test/activate'' urlRegex)
        = Some ''https://b.test/confirm/1''"
    by code_simp
  from a b x1 x2 x3 show ?thesis by (intro conjI)
qed

theorem extractVerifyUrl_first_match_witness:
  "extractVerifyUrl browser
     (Some \<lparr> msg_id = JStr ''m1'', snippet = JStr ''click'',
             payload = Some (Part (Some ''multipart/alternative'') None
               (Some [Some (Part (Some ''text/plain'')
                  (Some (Body (Some ''Y2xpY2sgaHR0cDovL3gudGVzdC92ZXJpZnk_dG9rPTEgbm93''))) None None)]) None),
             msg_verificationStatus = JStr ''pending'' \<rparr>)
     = Inr (Some ''http://x.test/verify?tok=1'')
   \<and> match_at urlRegex (drop 6 ''click http://x.test/verify?tok=1 now'') = Some ''http://x.test/verify?tok=1''"
proof -
  let ?t = "''click http://x.test/verify?tok=1 now''"
  let ?e = "\<lparr> msg_id = JStr ''m1'', snippet = JStr ''click'',
             payload = Some (Part (Some ''multipart/alternative'') None
               (Some [Some (Part (Some ''text/plain'')
                  (Some (Body (Some ''Y2xpY2sgaHR0cDovL3gudGVzdC92ZXJpZnk_dG9rPTEgbm93''))) None None)]) None),
             msg_verificationStatus = JStr ''pending'' \<rparr>"
  let ?c = "\<lparr> textContent = ?t, htmlContent = [] \<rparr>"
  have c: "extractEmailContent browser (payload ?e) = Inr ?c"
    by code_simp
  have t: "search_text ?c = ?t"
    by (simp add: search_text_def)
  have at: "match_at urlRegex (drop 6 ?t) = Some ''http://x.test/verify?tok=1''"
    by code_simp
  have "list_all (\<lambda>j. match_at urlRegex (drop j ?t) = None) [0..<6]"
    by code_simp
  then have before: "\<forall>j<6. match_at urlRegex (drop j ?t) = None"
    unfolding list_all_iff by (metis atLeastLessThan_iff set_upt zero_le)
  from extractVerifyUrl_first_match [of browser ?e]
  obtain c' where c': "extractEmailContent browser (payload ?e) = Inr c'"
    and iff: "\<forall>m. extractVerifyUrl browser (Some ?e) = Inr (Some m)
             \<longleftrightarrow> (\<exists>i\<le>length (search_text c').
                    match_at urlRegex (drop i (search_text c')) = Some m
                    \<and> (\<forall>j<i. match_at urlRegex (drop j (search_text c')) = None))"
    by blast
  have "c' = ?c" using c c' by simp
  then have st: "search_text c' = ?t" using t by simp
  have "\<exists>i\<le>length ?t. match_at urlRegex (drop i ?t) = Some ''http://x.test/verify?tok=1''
      \<and> (\<forall>j<i. match_at urlRegex (drop j ?t) = None)"
    using at before by (intro exI [of _ 6]) simp
  then have "extractVerifyUrl browser (Some ?e) = Inr (Some ''http://x.test/verify?tok=1'')"
    using iff [rule_format, of "''http://x.test/verify?tok=1''"] unfolding st by blast
  then show ?thesis using at by simp
qed

end
